theory Spec2Isabelle
  imports Main "HOL-Library.Word" "HOL-Library.Multiset"
begin

section \<open>Data model\<close>

text \<open>
  The scheduler of \<^verbatim>\<open>scheduler.cc\<close> works on \<^verbatim>\<open>Thread *\<close> pointers. A pointer is
  modelled as an identifier and the thread objects live in a store, so that the status
  written by \<^verbatim>\<open>setStatus\<close> and the keys read by the comparators are shared by every
  list that holds the pointer.
\<close>

type_synonym tid = nat

datatype ThreadStatus = RUNNING | READY | BLOCKED

text \<open>
  Modelled from the spec: the class \<^verbatim>\<open>Thread\<close> (thread.h, thread.cc) is not among the
  sources. The spec gives a thread a name, a run status, a remaining-burst counter and a
  priority value; \<^verbatim>\<open>Thread::CheckOverflow\<close> asserts that the stack has not overflowed,
  and the stack is kept as the one flag that assertion reads.
\<close>

record Thread =
  name :: string
  status :: ThreadStatus
  burstTime :: int
  priority :: int
  stackOverflowed :: bool

datatype SchedulerType = FCFS | SJF | Priority

datatype IntStatus = IntOff | IntOn

text \<open>
  The tick clock \<^verbatim>\<open>current\<close> and the wake ticks are C++ \<^verbatim>\<open>int\<close>, as the parameter
  \<^verbatim>\<open>val\<close> of \<^verbatim>\<open>FallAsleep\<close> is: 32-bit two's complement values, added with
  wrap-around and compared as signed numbers.
\<close>

type_synonym tick = "32 word"

type_synonym thread_clk = "tid \<times> tick"

datatype error = AssertionFailed

text \<open>
  The fields of \<^verbatim>\<open>Scheduler\<close>, together with the two globals it reads and writes
  (\<^verbatim>\<open>kernel->currentThread\<close> and the interrupt level), the store of thread objects and
  the set of threads that \<^verbatim>\<open>delete\<close> has destroyed.
\<close>

record Scheduler =
  schedulerType :: SchedulerType
  readyList :: "tid list"
  toBeDestroyed :: "tid option"
  sleepingList :: "thread_clk list"
  current :: tick
  currentThread :: tid
  level :: IntStatus
  threads :: "tid \<Rightarrow> Thread"
  destroyed :: "tid set"

section \<open>Comparators\<close>

definition SJFCompare :: "(tid \<Rightarrow> Thread) \<Rightarrow> tid \<Rightarrow> tid \<Rightarrow> int" where
  "SJFCompare h a b =
     (if burstTime (h a) = burstTime (h b) then 0
      else if burstTime (h a) > burstTime (h b) then 1 else - 1)"

definition PriorityCompare :: "(tid \<Rightarrow> Thread) \<Rightarrow> tid \<Rightarrow> tid \<Rightarrow> int" where
  "PriorityCompare h a b =
     (if priority (h a) = priority (h b) then 0
      else if priority (h a) > priority (h b) then 1 else - 1)"

section \<open>The ready list\<close>

text \<open>
  Modelled from the spec: \<^verbatim>\<open>List\<close> and \<^verbatim>\<open>SortedList\<close> (list.h, list.cc) are not among
  the sources. The spec's ready queue has \<^verbatim>\<open>Append\<close>, \<^verbatim>\<open>RemoveFront\<close> and a peek at the
  head; both signal an empty queue (removing from an empty list is a failed assertion
  for the caller). The plain list keeps strict insertion order. The
  sorted list keeps ascending order under a three-way comparator and breaks ties by
  insertion order: the new item goes before the first item that it precedes strictly.
\<close>

definition List_Append :: "tid \<Rightarrow> tid list \<Rightarrow> tid list" where
  "List_Append x xs = xs @ [x]"

fun SortedList_Insert :: "(tid \<Rightarrow> tid \<Rightarrow> int) \<Rightarrow> tid \<Rightarrow> tid list \<Rightarrow> tid list" where
  "SortedList_Insert cmp x [] = [x]"
| "SortedList_Insert cmp x (y # ys) =
     (if cmp x y < 0 then x # y # ys else y # SortedList_Insert cmp x ys)"

definition IsEmpty :: "tid list \<Rightarrow> bool" where
  "IsEmpty xs = (xs = [])"

fun RemoveFront :: "tid list \<Rightarrow> (tid \<times> tid list) option" where
  "RemoveFront [] = None"
| "RemoveFront (x # xs) = Some (x, xs)"

fun GetFront :: "tid list \<Rightarrow> tid option" where
  "GetFront [] = None"
| "GetFront (x # xs) = Some x"

text \<open>
  The constructor picks the list class from the scheduler type; \<^verbatim>\<open>readyList->Append\<close>
  then dispatches to the class that was picked.
\<close>

definition readyList_Append :: "SchedulerType \<Rightarrow> (tid \<Rightarrow> Thread) \<Rightarrow> tid \<Rightarrow> tid list \<Rightarrow> tid list" where
  "readyList_Append ty h x xs =
     (case ty of
        FCFS \<Rightarrow> List_Append x xs
      | SJF \<Rightarrow> SortedList_Insert (SJFCompare h) x xs
      | Priority \<Rightarrow> SortedList_Insert (PriorityCompare h) x xs)"

definition Scheduler_new :: "SchedulerType \<Rightarrow> tid \<Rightarrow> IntStatus \<Rightarrow> (tid \<Rightarrow> Thread) \<Rightarrow> Scheduler" where
  "Scheduler_new ty cur lv h =
     \<lparr> schedulerType = ty, readyList = [], toBeDestroyed = None, sleepingList = [],
       current = 0, currentThread = cur, level = lv, threads = h, destroyed = {} \<rparr>"

section \<open>Scheduler operations\<close>

definition setStatus :: "tid \<Rightarrow> ThreadStatus \<Rightarrow> (tid \<Rightarrow> Thread) \<Rightarrow> (tid \<Rightarrow> Thread)" where
  "setStatus t st h = h(t := (h t)\<lparr>status := st\<rparr>)"

definition ReadyToRun :: "tid \<Rightarrow> Scheduler \<Rightarrow> error + Scheduler" where
  "ReadyToRun thread s =
     (if level s \<noteq> IntOff then Inl AssertionFailed
      else
        let h = setStatus thread READY (threads s) in
        Inr (s\<lparr>threads := h,
               readyList := readyList_Append (schedulerType s) h thread (readyList s)\<rparr>))"

definition FindNextToRun :: "Scheduler \<Rightarrow> error + (tid option \<times> Scheduler)" where
  "FindNextToRun s =
     (if level s \<noteq> IntOff then Inl AssertionFailed
      else if IsEmpty (readyList s) then Inr (None, s)
      else
        (case RemoveFront (readyList s) of
           None \<Rightarrow> Inl AssertionFailed
         | Some (x, rest) \<Rightarrow> Inr (Some x, s\<lparr>readyList := rest\<rparr>)))"

definition CheckToBeDestroyed :: "Scheduler \<Rightarrow> Scheduler" where
  "CheckToBeDestroyed s =
     (case toBeDestroyed s of
        None \<Rightarrow> s
      | Some d \<Rightarrow> s\<lparr>destroyed := insert d (destroyed s), toBeDestroyed := None\<rparr>)"

text \<open>
  \<^verbatim>\<open>Run\<close> up to the call of \<^verbatim>\<open>SWITCH\<close>. Saving the user registers and the address
  space (under \<^verbatim>\<open>USER_PROGRAM\<close>) touches no scheduler state and is left out.
\<close>

definition Run_before_SWITCH :: "tid \<Rightarrow> bool \<Rightarrow> Scheduler \<Rightarrow> error + Scheduler" where
  "Run_before_SWITCH nextThread finishing s =
     (let oldThread = currentThread s in
      if level s \<noteq> IntOff then Inl AssertionFailed
      else if finishing \<and> toBeDestroyed s \<noteq> None then Inl AssertionFailed
      else
        let s1 = (if finishing then s\<lparr>toBeDestroyed := Some oldThread\<rparr> else s) in
        if stackOverflowed (threads s1 oldThread) then Inl AssertionFailed
        else
          Inr (s1\<lparr>currentThread := nextThread,
                  threads := setStatus nextThread RUNNING (threads s1)\<rparr>))"

text \<open>
  \<^verbatim>\<open>Run\<close> after \<^verbatim>\<open>SWITCH\<close> has returned: the old thread runs again, in whatever state
  the threads that ran in between have left.
\<close>

definition Run_after_SWITCH :: "Scheduler \<Rightarrow> error + Scheduler" where
  "Run_after_SWITCH s =
     (if level s \<noteq> IntOff then Inl AssertionFailed
      else Inr (CheckToBeDestroyed s))"

text \<open>
  \<^verbatim>\<open>SWITCH\<close> is the machine-dependent context switch (switch.s). From the thread that
  calls it, it is a call that returns when the thread is dispatched again; the parameter
  gives the scheduler state at that moment from the state at the call.
\<close>

definition Run :: "(Scheduler \<Rightarrow> Scheduler) \<Rightarrow> tid \<Rightarrow> bool \<Rightarrow> Scheduler \<Rightarrow> error + Scheduler" where
  "Run SWITCH nextThread finishing s =
     (case Run_before_SWITCH nextThread finishing s of
        Inl e \<Rightarrow> Inl e
      | Inr s1 \<Rightarrow> Run_after_SWITCH (SWITCH s1))"

text \<open>
  Modelled from the spec: \<^verbatim>\<open>Thread::Sleep\<close> (thread.cc) is not among the sources. By
  the spec, going to sleep requires interrupts disabled, sets the thread's status to the
  blocked state and causes no reschedule: the caller yields.
\<close>

definition Thread_Sleep :: "tid \<Rightarrow> Scheduler \<Rightarrow> error + Scheduler" where
  "Thread_Sleep t s =
     (if level s \<noteq> IntOff then Inl AssertionFailed
      else Inr (s\<lparr>threads := setStatus t BLOCKED (threads s)\<rparr>))"

definition FallAsleep :: "tid \<Rightarrow> tick \<Rightarrow> Scheduler \<Rightarrow> error + Scheduler" where
  "FallAsleep t val s =
     Thread_Sleep t (s\<lparr>sleepingList := sleepingList s @ [(t, current s + val)]\<rparr>)"

definition erase :: "nat \<Rightarrow> 'a list \<Rightarrow> 'a list" where
  "erase i xs = take i xs @ drop (Suc i) xs"

text \<open>
  The loop of \<^verbatim>\<open>WakeUp\<close>: the index stays where it is after an erase and moves on
  otherwise.
\<close>

function WakeUp_loop :: "nat \<Rightarrow> bool \<Rightarrow> Scheduler \<Rightarrow> error + (bool \<times> Scheduler)" where
  "WakeUp_loop i woken s =
     (if i < length (sleepingList s) then
        let it = sleepingList s ! i in
        if sint (snd it) < sint (current s) then
          (case ReadyToRun (fst it) s of
             Inl e \<Rightarrow> Inl e
           | Inr s' \<Rightarrow> WakeUp_loop i True (s'\<lparr>sleepingList := erase i (sleepingList s')\<rparr>))
        else WakeUp_loop (i + 1) woken s
      else Inr (woken, s))"
  by pat_completeness auto
termination
proof (relation "measure (\<lambda>(i, woken, s). length (sleepingList s) - i)", goal_cases)
  case 1
  show ?case by simp
next
  case (2 i woken s it s')
  from \<open>ReadyToRun (fst it) s = Inr s'\<close> have "sleepingList s' = sleepingList s"
    by (auto simp: ReadyToRun_def Let_def split: if_splits)
  with \<open>i < length (sleepingList s)\<close> show ?case
    by (simp add: erase_def)
next
  case (3 i woken s it)
  then show ?case by simp
qed

definition WakeUp :: "Scheduler \<Rightarrow> error + (bool \<times> Scheduler)" where
  "WakeUp s = WakeUp_loop 0 False (s\<lparr>current := current s + 1\<rparr>)"

definition needYield :: "Scheduler \<Rightarrow> bool" where
  "needYield s =
     (let now = currentThread s in
      case GetFront (readyList s) of
        None \<Rightarrow> False
      | Some next \<Rightarrow>
          (case schedulerType s of
             FCFS \<Rightarrow> False
           | SJF \<Rightarrow> SJFCompare (threads s) now next > 0
           | Priority \<Rightarrow> PriorityCompare (threads s) now next > 0))"

section \<open>Sequences of calls\<close>

text \<open>Calls of \<^verbatim>\<open>ReadyToRun\<close> one after the other; the first failed assertion aborts.\<close>

fun ReadyToRun_seq :: "tid list \<Rightarrow> Scheduler \<Rightarrow> error + Scheduler" where
  "ReadyToRun_seq [] s = Inr s"
| "ReadyToRun_seq (t # ts) s =
     (case ReadyToRun t s of Inl e \<Rightarrow> Inl e | Inr s' \<Rightarrow> ReadyToRun_seq ts s')"


text \<open>\<open>n\<close> timer ticks: \<^verbatim>\<open>WakeUp\<close> called \<open>n\<close> times.\<close>

fun WakeUp_times :: "nat \<Rightarrow> Scheduler \<Rightarrow> error + Scheduler" where
  "WakeUp_times 0 s = Inr s"
| "WakeUp_times (Suc n) s =
     (case WakeUp s of Inl e \<Rightarrow> Inl e | Inr (woken, s') \<Rightarrow> WakeUp_times n s')"

text \<open>\<open>n\<close> calls of \<^verbatim>\<open>FindNextToRun\<close>, with the threads they return.\<close>

fun FindNextToRun_times :: "nat \<Rightarrow> Scheduler \<Rightarrow> error + (tid option list \<times> Scheduler)" where
  "FindNextToRun_times 0 s = Inr ([], s)"
| "FindNextToRun_times (Suc n) s =
     (case FindNextToRun s of
        Inl e \<Rightarrow> Inl e
      | Inr (r, s') \<Rightarrow>
          (case FindNextToRun_times n s' of
             Inl e \<Rightarrow> Inl e
           | Inr (rs, s'') \<Rightarrow> Inr (r # rs, s'')))"

text \<open>Any interleaving of the two ready-queue operations, with what each selection returns.\<close>

datatype call = MarkReady tid | SelectNext

fun run_calls :: "call list \<Rightarrow> Scheduler \<Rightarrow> error + (tid option list \<times> Scheduler)" where
  "run_calls [] s = Inr ([], s)"
| "run_calls (MarkReady t # cs) s =
     (case ReadyToRun t s of Inl e \<Rightarrow> Inl e | Inr s' \<Rightarrow> run_calls cs s')"
| "run_calls (SelectNext # cs) s =
     (case FindNextToRun s of
        Inl e \<Rightarrow> Inl e
      | Inr (r, s') \<Rightarrow>
          (case run_calls cs s' of
             Inl e \<Rightarrow> Inl e
           | Inr (rs, s'') \<Rightarrow> Inr (r # rs, s'')))"

fun marked :: "call list \<Rightarrow> tid list" where
  "marked [] = []"
| "marked (MarkReady t # cs) = t # marked cs"
| "marked (SelectNext # cs) = marked cs"

fun returned :: "tid option list \<Rightarrow> tid list" where
  "returned [] = []"
| "returned (Some t # rs) = t # returned rs"
| "returned (None # rs) = returned rs"

section \<open>Running threads\<close>

text \<open>
  The processor's view of a context switch. The outgoing thread executes \<^verbatim>\<open>Run\<close> up to
  \<^verbatim>\<open>SWITCH\<close>; the incoming thread goes on behind the \<^verbatim>\<open>SWITCH\<close> at which it was
  suspended, where it checks for a thread to destroy.
\<close>

text \<open>
  Modelled from the spec: the start of a thread that runs for the first time (thread.cc,
  switch.s) is not among the sources. By the spec the deferred destruction of the prior
  occupant is performed once the switch has given control to the next thread, so a new
  thread starts with the same check.
\<close>

definition Dispatch :: "tid \<Rightarrow> bool \<Rightarrow> Scheduler \<Rightarrow> error + Scheduler" where
  "Dispatch nextThread finishing s =
     (case Run_before_SWITCH nextThread finishing s of
        Inl e \<Rightarrow> Inl e
      | Inr s1 \<Rightarrow> Run_after_SWITCH s1)"

text \<open>
  Modelled from the spec: \<^verbatim>\<open>Thread::Yield\<close> (thread.cc) is not among the sources. A
  thread that yields disables interrupts and selects the next thread; if there is one, it
  marks itself ready and dispatches to it, not finishing; if there is none, it keeps the
  processor.
\<close>

definition Thread_Yield :: "Scheduler \<Rightarrow> error + Scheduler" where
  "Thread_Yield s =
     (case FindNextToRun (s\<lparr>level := IntOff\<rparr>) of
        Inl e \<Rightarrow> Inl e
      | Inr (None, s1) \<Rightarrow> Inr (s1\<lparr>level := level s\<rparr>)
      | Inr (Some nextThread, s1) \<Rightarrow>
          (case ReadyToRun (currentThread s1) s1 of
             Inl e \<Rightarrow> Inl e
           | Inr s2 \<Rightarrow> Dispatch nextThread False s2))"

text \<open>
  Modelled from the spec: \<^verbatim>\<open>Thread::Finish\<close> (thread.cc) is not among the sources. A
  thread that finishes disables interrupts, blocks and selects the next thread; if there
  is one, it dispatches to it with \<^verbatim>\<open>finishing\<close> set, so that it is destroyed once the
  next thread runs. The result tells whether there was a next thread; with none the
  processor idles.
\<close>

definition Thread_Finish :: "Scheduler \<Rightarrow> error + (bool \<times> Scheduler)" where
  "Thread_Finish s =
     (case Thread_Sleep (currentThread s) (s\<lparr>level := IntOff\<rparr>) of
        Inl e \<Rightarrow> Inl e
      | Inr s0 \<Rightarrow>
          (case FindNextToRun s0 of
             Inl e \<Rightarrow> Inl e
           | Inr (None, s1) \<Rightarrow> Inr (False, s1)
           | Inr (Some nextThread, s1) \<Rightarrow>
               (case Dispatch nextThread True s1 of
                  Inl e \<Rightarrow> Inl e
                | Inr s2 \<Rightarrow> Inr (True, s2))))"

text \<open>
  Modelled from the spec: \<^verbatim>\<open>Interrupt::OneTick\<close> (interrupt.cc) is not among the
  sources. By the spec a timer tick calls the tick-advance and wake routine, with
  interrupts disabled; \<^verbatim>\<open>needYield\<close> only advises, and a thread leaves the processor
  only by yielding or blocking. Whether the running thread follows the advice is the
  parameter \<open>preempt\<close>: when it is set, the thread yields on a tick at which
  \<^verbatim>\<open>needYield\<close> holds.
\<close>

definition OneTick :: "bool \<Rightarrow> Scheduler \<Rightarrow> error + Scheduler" where
  "OneTick preempt s =
     (case WakeUp (s\<lparr>level := IntOff\<rparr>) of
        Inl e \<Rightarrow> Inl e
      | Inr (woken, s1) \<Rightarrow>
          if preempt \<and> needYield s1 then Thread_Yield s1 else Inr s1)"

text \<open>
  One pass of the loop of \<^verbatim>\<open>threadBody\<close>, run by the current thread: with burst time
  left, it takes one unit off and lets one tick pass (during which the processor may go to
  another thread), and the loop goes on; with none left, the loop is over. The loop keeps
  no state but the burst time, so a thread that comes back to the processor goes on with
  the next pass. The \<^verbatim>\<open>printf\<close> of the loop writes to the console only.
\<close>

definition threadBody_pass :: "bool \<Rightarrow> Scheduler \<Rightarrow> error + (bool \<times> Scheduler)" where
  "threadBody_pass preempt s =
     (let thread = currentThread s in
      if burstTime (threads s thread) > 0 then
        (case OneTick preempt
                (s\<lparr>threads := (threads s)
                     (thread := (threads s thread)\<lparr>burstTime := burstTime (threads s thread) - 1\<rparr>)\<rparr>) of
           Inl e \<Rightarrow> Inl e
         | Inr s' \<Rightarrow> Inr (True, s'))
      else Inr (False, s))"

text \<open>
  The processor with its threads: the scheduler state, the threads that have completed,
  in the order of their completion, and whether the processor idles for want of a thread.
\<close>

record Machine =
  sched :: Scheduler
  completed :: "tid list"
  idle :: bool

definition machine_finish :: "Machine \<Rightarrow> error + Machine" where
  "machine_finish M =
     (case Thread_Finish (sched M) of
        Inl e \<Rightarrow> Inl e
      | Inr (switched, s') \<Rightarrow>
          Inr \<lparr> sched = s', completed = completed M @ [currentThread (sched M)],
                idle = \<not> switched \<rparr>)"

text \<open>
  Modelled from the spec: what a thread does when \<^verbatim>\<open>threadBody\<close> returns, and what the
  caller of the self test does when it runs again, are not among the sources. By the spec
  the self test runs the forked threads to completion: a forked thread finishes when its
  loop is over, and the caller does nothing more and finishes.
\<close>

definition machine_step :: "bool \<Rightarrow> tid list \<Rightarrow> Machine \<Rightarrow> error + Machine" where
  "machine_step preempt forked M =
     (if idle M then Inr M
      else if currentThread (sched M) \<in> set forked then
        (case threadBody_pass preempt (sched M) of
           Inl e \<Rightarrow> Inl e
         | Inr (True, s') \<Rightarrow> Inr (M\<lparr>sched := s'\<rparr>)
         | Inr (False, s') \<Rightarrow> machine_finish M)
      else machine_finish M)"

fun machine_run :: "bool \<Rightarrow> tid list \<Rightarrow> nat \<Rightarrow> Machine \<Rightarrow> error + Machine" where
  "machine_run preempt forked 0 M = Inr M"
| "machine_run preempt forked (Suc n) M =
     (case machine_step preempt forked M of
        Inl e \<Rightarrow> Inl e
      | Inr M' \<Rightarrow> machine_run preempt forked n M')"

section \<open>The self test\<close>

definition thread_names :: "string list" where
  "thread_names = [''A'', ''B'', ''C'', ''D'']"

definition thread_priority :: "int \<Rightarrow> int list option" where
  "thread_priority testcase =
     (if testcase = 0 then Some [5, 1, 3, 2]
      else if testcase = 1 then Some [5, 1, 3, 2]
      else if testcase = 2 then Some [10, 1, 2, 3]
      else None)"

definition thread_burst :: "int \<Rightarrow> int list option" where
  "thread_burst testcase =
     (if testcase = 0 then Some [3, 9, 7, 3]
      else if testcase = 1 then Some [1, 9, 2, 3]
      else if testcase = 2 then Some [50, 10, 5, 10]
      else None)"

text \<open>
  Modelled from the spec: \<^verbatim>\<open>Thread::Fork\<close> (thread.cc) is not among the sources. By
  the spec a forked thread is marked ready, and marking ready requires interrupts
  disabled: the fork disables them around the call and restores the level.
\<close>

definition Thread_Fork :: "tid \<Rightarrow> Scheduler \<Rightarrow> error + Scheduler" where
  "Thread_Fork t s =
     (case ReadyToRun t (s\<lparr>level := IntOff\<rparr>) of
        Inl e \<Rightarrow> Inl e
      | Inr s' \<Rightarrow> Inr (s'\<lparr>level := level s\<rparr>))"

text \<open>
  The loop of \<^verbatim>\<open>SelfTest\<close>. The pointers that \<^verbatim>\<open>new Thread\<close> returns are the first
  argument; each new thread gets its name, priority and burst time and is forked.
\<close>

fun SelfTest_loop :: "tid list \<Rightarrow> string list \<Rightarrow> int list \<Rightarrow> int list \<Rightarrow> Scheduler \<Rightarrow> error + Scheduler" where
  "SelfTest_loop (t # ts) (n # ns) (p # ps) (b # bs) s =
     (case Thread_Fork t
             (s\<lparr>threads := (threads s)(t := (threads s t)\<lparr>name := n, priority := p, burstTime := b\<rparr>)\<rparr>) of
        Inl e \<Rightarrow> Inl e
      | Inr s' \<Rightarrow> SelfTest_loop ts ns ps bs s')"
| "SelfTest_loop _ _ _ _ s = Inr s"

text \<open>
  The statements of \<^verbatim>\<open>SelfTest\<close> before its last one: the test case is looked up and
  the four threads are forked. An unknown test case stops at \<^verbatim>\<open>ASSERTNOTREACHED\<close>.
\<close>

definition SelfTest_forks :: "int \<Rightarrow> tid list \<Rightarrow> Scheduler \<Rightarrow> error + Scheduler" where
  "SelfTest_forks testcase ids s =
     (case thread_priority testcase of
        None \<Rightarrow> Inl AssertionFailed
      | Some ps \<Rightarrow>
          (case thread_burst testcase of
             None \<Rightarrow> Inl AssertionFailed
           | Some bs \<Rightarrow> SelfTest_loop (take 4 ids) thread_names ps bs s))"

text \<open>
  \<^verbatim>\<open>SelfTest\<close> with its closing \<^verbatim>\<open>Yield\<close>: the state in which the thread that the
  yield dispatches to starts to run.
\<close>

definition SelfTest :: "int \<Rightarrow> tid list \<Rightarrow> Scheduler \<Rightarrow> error + Scheduler" where
  "SelfTest testcase ids s =
     (case SelfTest_forks testcase ids s of
        Inl e \<Rightarrow> Inl e
      | Inr s1 \<Rightarrow> Thread_Yield s1)"

text \<open>The self test followed by \<open>n\<close> steps of the processor.\<close>

definition SelfTest_run :: "bool \<Rightarrow> int \<Rightarrow> tid list \<Rightarrow> nat \<Rightarrow> Scheduler \<Rightarrow> error + Machine" where
  "SelfTest_run preempt testcase ids n s =
     (case SelfTest testcase ids s of
        Inl e \<Rightarrow> Inl e
      | Inr s2 \<Rightarrow>
          machine_run preempt (take 4 ids) n \<lparr> sched = s2, completed = [], idle = False \<rparr>)"

definition main_thread :: Thread where
  "main_thread =
     \<lparr> name = ''main'', status = RUNNING, burstTime = 0, priority = 0, stackOverflowed = False \<rparr>"

section \<open>Memory manager\<close>

type_synonym ptid = nat

record FrameInfoEntry =
  valid :: bool
  lock :: bool
  pageTable :: ptid
  vpn :: nat
  count :: nat

record MemoryManager =
  frameTable :: "FrameInfoEntry list"
  swapTable :: "FrameInfoEntry list"
  manager_count :: nat

text \<open>
  Modelled from the spec: the body of \<^verbatim>\<open>MemoryManager::ReleaseAll\<close> (addrspace.cc) is
  not among the sources, only its declaration is. By the spec, for every virtual page
  \<open>0..numPages-1\<close> of the given page table, a resident page has its frame directory entry
  invalidated and freed and a swapped-out page has its swap directory entry freed; pages
  that are in neither directory are skipped. A page is resident (swapped out) when a valid
  entry of the frame (swap) directory names its page table and virtual page number.
\<close>

definition names_page :: "ptid \<Rightarrow> nat \<Rightarrow> FrameInfoEntry \<Rightarrow> bool" where
  "names_page pt v e = (valid e \<and> pageTable e = pt \<and> vpn e = v)"

definition release_page :: "ptid \<Rightarrow> nat \<Rightarrow> FrameInfoEntry list \<Rightarrow> FrameInfoEntry list" where
  "release_page pt v tbl = map (\<lambda>e. if names_page pt v e then e\<lparr>valid := False\<rparr> else e) tbl"

function ReleaseAll_loop :: "ptid \<Rightarrow> nat \<Rightarrow> nat \<Rightarrow> MemoryManager \<Rightarrow> MemoryManager" where
  "ReleaseAll_loop pt v num m =
     (if v < num then
        ReleaseAll_loop pt (v + 1) num
          (m\<lparr>frameTable := release_page pt v (frameTable m),
             swapTable := release_page pt v (swapTable m)\<rparr>)
      else m)"
  by pat_completeness auto
termination
  by (relation "measure (\<lambda>(pt, v, num, m). num - v)") auto

definition ReleaseAll :: "ptid \<Rightarrow> int \<Rightarrow> MemoryManager \<Rightarrow> MemoryManager" where
  "ReleaseAll pt num m = ReleaseAll_loop pt 0 (nat num) m"

text \<open>
  Modelled from the spec: the body of \<^verbatim>\<open>MemoryManager::AcquirePage\<close> is not among the
  sources. What an acquisition observes of a directory is whether the requested page
  already has an entry there: the first valid entry that names the page, if any.
\<close>

definition lookup_page :: "ptid \<Rightarrow> nat \<Rightarrow> FrameInfoEntry list \<Rightarrow> FrameInfoEntry option" where
  "lookup_page pt v tbl = find (names_page pt v) tbl"

section \<open>Auxiliary notions\<close>

text \<open>An entry of the sleep list has expired at tick \<open>now\<close>: the test of \<^verbatim>\<open>WakeUp\<close>.\<close>

definition expired :: "tick \<Rightarrow> thread_clk \<Rightarrow> bool" where
  "expired now it = (sint (snd it) < sint now)"

text \<open>The state after \<^verbatim>\<open>ReadyToRun\<close> when its assertion holds.\<close>

definition markReady :: "tid \<Rightarrow> Scheduler \<Rightarrow> Scheduler" where
  "markReady t s =
     s\<lparr>threads := setStatus t READY (threads s),
       readyList := readyList_Append (schedulerType s) (setStatus t READY (threads s)) t (readyList s)\<rparr>"

text \<open>
  The situation of a sleeper \<open>t\<close> with wake tick \<open>w\<close> while it waits, the tick clock
  standing at \<open>now\<close>: interrupts are off, \<open>t\<close> is not on the ready list and its one
  entry in the sleep list is \<open>(t, w)\<close>.
\<close>

definition asleep :: "tid \<Rightarrow> tick \<Rightarrow> int \<Rightarrow> Scheduler \<Rightarrow> bool" where
  "asleep t w now s =
     (level s = IntOff \<and> sint (current s) = now \<and> t \<notin> set (readyList s)
      \<and> (t, w) \<in> set (sleepingList s)
      \<and> (\<forall>w'. (t, w') \<in> set (sleepingList s) \<longrightarrow> w' = w))"

text \<open>\<^verbatim>\<open>FallAsleep\<close> followed by \<open>n\<close> timer ticks.\<close>

definition sleep_then_tick :: "tid \<Rightarrow> tick \<Rightarrow> nat \<Rightarrow> Scheduler \<Rightarrow> error + Scheduler" where
  "sleep_then_tick t val n s =
     (case FallAsleep t val s of Inl e \<Rightarrow> Inl e | Inr s1 \<Rightarrow> WakeUp_times n s1)"

text \<open>A store in which every thread object is a copy of the main thread.\<close>

definition idle_threads :: "tid \<Rightarrow> Thread" where
  "idle_threads t = main_thread"

text \<open>
  The spec's plain FIFO queue, as a reference for the scheduler under FCFS: what each
  selection returns, for a sequence of calls and the queue they start from.
\<close>

fun fifo_outputs :: "call list \<Rightarrow> tid list \<Rightarrow> tid option list" where
  "fifo_outputs [] q = []"
| "fifo_outputs (MarkReady t # cs) q = fifo_outputs cs (q @ [t])"
| "fifo_outputs (SelectNext # cs) [] = None # fifo_outputs cs []"
| "fifo_outputs (SelectNext # cs) (x # q) = Some x # fifo_outputs cs q"

text \<open>
  The scheduler under Priority between two steps of the processor: thread \<open>c\<close> runs, the
  ready list is \<open>rl\<close>, nobody sleeps or waits to be destroyed, the priority values are
  those of \<open>K\<close>, and no stack has overflowed.
\<close>

definition ready_state :: "(tid \<Rightarrow> int) \<Rightarrow> tid \<Rightarrow> tid list \<Rightarrow> Scheduler \<Rightarrow> bool" where
  "ready_state K c rl s =
     (schedulerType s = Priority \<and> sleepingList s = [] \<and> toBeDestroyed s = None
      \<and> currentThread s = c \<and> readyList s = rl
      \<and> (\<forall>t. priority (threads s t) = K t)
      \<and> (\<forall>t. \<not> stackOverflowed (threads s t)))"

text \<open>The steps the processor needs to complete the threads of a list, one after the other.\<close>

definition passes_left :: "tid list \<Rightarrow> Scheduler \<Rightarrow> tid \<Rightarrow> nat" where
  "passes_left forked s t = (if t \<in> set forked then nat (burstTime (threads s t)) else 0)"

fun steps_left :: "tid list \<Rightarrow> Scheduler \<Rightarrow> tid list \<Rightarrow> nat" where
  "steps_left forked s [] = 0"
| "steps_left forked s (t # ts) = passes_left forked s t + 1 + steps_left forked s ts"

text \<open>
  The entry that \<^verbatim>\<open>ReleaseAll\<close> leaves in place of \<open>e\<close> once its loop has gone from
  virtual page \<open>v\<close> up to \<open>num\<close>.
\<close>

definition released :: "ptid \<Rightarrow> nat \<Rightarrow> nat \<Rightarrow> FrameInfoEntry \<Rightarrow> FrameInfoEntry" where
  "released pt v num e =
     (if valid e \<and> pageTable e = pt \<and> v \<le> vpn e \<and> vpn e < num then e\<lparr>valid := False\<rparr> else e)"

text \<open>Example states: five threads under the Priority policy, and two processes in memory.\<close>

definition priority_example :: Scheduler where
  "priority_example =
     Scheduler_new Priority 9 IntOff
       (idle_threads(0 := main_thread\<lparr>priority := 5\<rparr>, 1 := main_thread\<lparr>priority := 1\<rparr>,
          2 := main_thread\<lparr>priority := 3\<rparr>, 3 := main_thread\<lparr>priority := 2\<rparr>,
          4 := main_thread\<lparr>priority := 3\<rparr>))"

definition memory_example :: MemoryManager where
  "memory_example =
     \<lparr> frameTable =
         [\<lparr>valid = True, lock = False, pageTable = 1, vpn = 0, count = 0\<rparr>,
          \<lparr>valid = True, lock = False, pageTable = 2, vpn = 0, count = 0\<rparr>],
       swapTable =
         [\<lparr>valid = True, lock = False, pageTable = 1, vpn = 1, count = 0\<rparr>],
       manager_count = 0 \<rparr>"

section \<open>Basic facts\<close>

declare WakeUp_loop.simps [simp del]
declare ReleaseAll_loop.simps [simp del]

lemma ReadyToRun_IntOff: "level s = IntOff \<Longrightarrow> ReadyToRun t s = Inr (markReady t s)"
  by (simp add: ReadyToRun_def markReady_def Let_def)

lemma markReady_fields [simp]:
  "level (markReady t s) = level s"
  "current (markReady t s) = current s"
  "sleepingList (markReady t s) = sleepingList s"
  "schedulerType (markReady t s) = schedulerType s"
  "currentThread (markReady t s) = currentThread s"
  "toBeDestroyed (markReady t s) = toBeDestroyed s"
  "destroyed (markReady t s) = destroyed s"
  by (simp_all add: markReady_def)

lemma markReady_sleepingList_update:
  "markReady t (s\<lparr>sleepingList := x\<rparr>) = (markReady t s)\<lparr>sleepingList := x\<rparr>"
  by (simp add: markReady_def)

lemma fold_markReady_fields [simp]:
  "level (fold markReady ts s) = level s"
  "current (fold markReady ts s) = current s"
  "sleepingList (fold markReady ts s) = sleepingList s"
  "schedulerType (fold markReady ts s) = schedulerType s"
  "currentThread (fold markReady ts s) = currentThread s"
  by (induction ts arbitrary: s; simp)+

lemma fold_markReady_sleepingList_update:
  "fold markReady ts (s\<lparr>sleepingList := x\<rparr>) = (fold markReady ts s)\<lparr>sleepingList := x\<rparr>"
  by (induction ts arbitrary: s) (simp_all add: markReady_sleepingList_update)

lemma ReadyToRun_seq_IntOff:
  "level s = IntOff \<Longrightarrow> ReadyToRun_seq ts s = Inr (fold markReady ts s)"
  by (induction ts arbitrary: s) (simp_all add: ReadyToRun_IntOff)

lemma WakeUp_loop_IntOff:
  "level s = IntOff \<Longrightarrow> i \<le> length (sleepingList s) \<Longrightarrow>
   WakeUp_loop i woken s =
     Inr (woken \<or> filter (expired (current s)) (drop i (sleepingList s)) \<noteq> [],
          (fold markReady (map fst (filter (expired (current s)) (drop i (sleepingList s)))) s)
            \<lparr>sleepingList := take i (sleepingList s)
                 @ filter (\<lambda>it. \<not> expired (current s) it) (drop i (sleepingList s))\<rparr>)"
proof (induction i woken s rule: WakeUp_loop.induct)
  case (1 i woken s)
  show ?case
  proof (cases "i < length (sleepingList s)")
    case False
    with 1 show ?thesis by (subst WakeUp_loop.simps) simp
  next
    case True
    note lt = True
    let ?it = "sleepingList s ! i"
    have dr: "drop i (sleepingList s) = ?it # drop (Suc i) (sleepingList s)"
      using lt by (simp add: Cons_nth_drop_Suc)
    show ?thesis
    proof (cases "expired (current s) ?it")
      case True
      let ?s' = "markReady (fst ?it) s"
      let ?s'' = "?s'\<lparr>sleepingList := erase i (sleepingList ?s')\<rparr>"
      have ex: "sint (snd ?it) < sint (current s)" using True by (simp add: expired_def)
      have r: "ReadyToRun (fst ?it) s = Inr ?s'" using 1(3) by (rule ReadyToRun_IntOff)
      have e1: "drop i (erase i (sleepingList s)) = drop (Suc i) (sleepingList s)"
        using lt by (simp add: erase_def)
      have e2: "take i (erase i (sleepingList s)) = take i (sleepingList s)"
        using lt by (simp add: erase_def)
      have len: "i \<le> length (sleepingList ?s'')" using lt by (simp add: erase_def)
      have lv: "level ?s'' = IntOff" using 1(3) by simp
      have ih: "WakeUp_loop i True ?s'' = Inr (True \<or> filter (expired (current ?s'')) (drop i (sleepingList ?s'')) \<noteq> [],
          (fold markReady (map fst (filter (expired (current ?s'')) (drop i (sleepingList ?s'')))) ?s'')
            \<lparr>sleepingList := take i (sleepingList ?s'')
                 @ filter (\<lambda>it. \<not> expired (current ?s'') it) (drop i (sleepingList ?s''))\<rparr>)"
        using 1(1)[OF lt refl ex r lv len] by simp
      have "WakeUp_loop i woken s = WakeUp_loop i True ?s''"
        using lt True r by (subst WakeUp_loop.simps) (simp add: expired_def Let_def)
      also note ih
      finally show ?thesis
        using True by (simp add: dr e1 e2 fold_markReady_sleepingList_update)
    next
      case False
      have nex: "\<not> sint (snd ?it) < sint (current s)" using False by (simp add: expired_def)
      have ih: "WakeUp_loop (i + 1) woken s = Inr (woken \<or> filter (expired (current s)) (drop (i + 1) (sleepingList s)) \<noteq> [],
          (fold markReady (map fst (filter (expired (current s)) (drop (i + 1) (sleepingList s)))) s)
            \<lparr>sleepingList := take (i + 1) (sleepingList s)
                 @ filter (\<lambda>it. \<not> expired (current s) it) (drop (i + 1) (sleepingList s))\<rparr>)"
        using 1(2)[OF lt refl nex 1(3)] lt by simp
      have "WakeUp_loop i woken s = WakeUp_loop (i + 1) woken s"
        using lt False by (subst WakeUp_loop.simps) (simp add: expired_def Let_def)
      also note ih
      finally show ?thesis
        using False lt by (simp add: dr take_Suc_conv_app_nth)
    qed
  qed
qed

lemma WakeUp_IntOff:
  "level s = IntOff \<Longrightarrow>
   WakeUp s =
     Inr (filter (expired (current s + 1)) (sleepingList s) \<noteq> [],
          (fold markReady (map fst (filter (expired (current s + 1)) (sleepingList s)))
             (s\<lparr>current := current s + 1\<rparr>))
            \<lparr>sleepingList := filter (\<lambda>it. \<not> expired (current s + 1) it) (sleepingList s)\<rparr>)"
  by (simp add: WakeUp_def WakeUp_loop_IntOff)

lemma sint_succ_no_overflow:
  "sint (c :: 32 word) < 2 ^ 31 - 1 \<Longrightarrow> sint (c + 1) = sint c + 1"
proof -
  assume a: "sint c < 2 ^ 31 - 1"
  have "- (2 ^ 31) \<le> sint c" using sint_ge [of c] by simp
  with a show ?thesis
    by (simp add: sint_word_add signed_take_bit_int_eq_self)
qed

lemma sint_add_no_overflow:
  "0 \<le> sint (d :: 32 word) \<Longrightarrow> sint (c :: 32 word) + sint d < 2 ^ 31 \<Longrightarrow> sint (c + d) = sint c + sint d"
proof -
  assume a: "0 \<le> sint d" "sint c + sint d < 2 ^ 31"
  have "- (2 ^ 31) \<le> sint c" using sint_ge [of c] by simp
  with a show ?thesis
    by (simp add: sint_word_add signed_take_bit_int_eq_self)
qed

lemma FallAsleep_IntOff:
  "level s = IntOff \<Longrightarrow>
   FallAsleep t val s =
     Inr (s\<lparr>sleepingList := sleepingList s @ [(t, current s + val)],
            threads := setStatus t BLOCKED (threads s)\<rparr>)"
  by (simp add: FallAsleep_def Thread_Sleep_def)


lemma readyList_fold_markReady_FCFS:
  "schedulerType s = FCFS \<Longrightarrow> readyList (fold markReady ts s) = readyList s @ ts"
proof (induction ts arbitrary: s)
  case Nil
  then show ?case by simp
next
  case (Cons t ts)
  have "schedulerType (markReady t s) = FCFS" using Cons.prems by simp
  from Cons.IH [OF this] show ?case
    using Cons.prems by (simp add: markReady_def readyList_Append_def List_Append_def)
qed

lemma set_SortedList_Insert: "set (SortedList_Insert cmp x xs) = insert x (set xs)"
  by (induction xs) auto

lemma set_readyList_Append: "set (readyList_Append ty h x xs) = insert x (set xs)"
  by (cases ty) (simp_all add: readyList_Append_def List_Append_def set_SortedList_Insert)

lemma set_readyList_fold_markReady:
  "set (readyList (fold markReady ts s)) = set (readyList s) \<union> set ts"
  by (induction ts arbitrary: s) (auto simp: markReady_def set_readyList_Append)

lemma status_fold_markReady:
  "t \<in> set ts \<Longrightarrow> status (threads (fold markReady ts s) t) = READY"
proof (induction ts arbitrary: s rule: rev_induct)
  case Nil
  then show ?case by simp
next
  case (snoc u ts)
  show ?case
  proof (cases "t = u")
    case True
    then show ?thesis by (simp add: markReady_def setStatus_def)
  next
    case False
    with snoc show ?thesis by (simp add: markReady_def setStatus_def)
  qed
qed


lemma asleep_tick:
  assumes a: "asleep t w now s" and lt: "now < sint w" and b: "sint w < 2 ^ 31 - 1"
  shows "\<exists>woken s'. WakeUp s = Inr (woken, s') \<and> asleep t w (now + 1) s'"
proof -
  let ?now = "current s + 1"
  let ?ex = "filter (expired ?now) (sleepingList s)"
  let ?keep = "filter (\<lambda>it. \<not> expired ?now it) (sleepingList s)"
  let ?s' = "(fold markReady (map fst ?ex) (s\<lparr>current := ?now\<rparr>))\<lparr>sleepingList := ?keep\<rparr>"
  from a have lv: "level s = IntOff" and c: "sint (current s) = now"
    and nr: "t \<notin> set (readyList s)" and i: "(t, w) \<in> set (sleepingList s)"
    and u: "\<And>w'. (t, w') \<in> set (sleepingList s) \<Longrightarrow> w' = w"
    unfolding asleep_def by blast+
  have w: "WakeUp s = Inr (?ex \<noteq> [], ?s')" using lv by (rule WakeUp_IntOff)
  have "sint (current s) < 2 ^ 31 - 1" using c lt b by linarith
  from sint_succ_no_overflow [OF this] c have n: "sint ?now = now + 1" by simp
  have ne: "\<not> expired ?now (t, w)" using n lt by (simp add: expired_def)
  have nx: "t \<notin> set (map fst ?ex)"
  proof
    assume "t \<in> set (map fst ?ex)"
    then obtain w' where "(t, w') \<in> set (sleepingList s)" "expired ?now (t, w')" by auto
    with u ne show False by blast
  qed
  have 1: "level ?s' = IntOff" using lv by simp
  have 2: "sint (current ?s') = now + 1" using n by simp
  have 3: "t \<notin> set (readyList ?s')" using nr nx by (simp add: set_readyList_fold_markReady)
  have 4: "(t, w) \<in> set (sleepingList ?s')" using i ne by simp
  have 5: "\<forall>w'. (t, w') \<in> set (sleepingList ?s') \<longrightarrow> w' = w" using u by simp
  from 1 2 3 4 5 have "asleep t w (now + 1) ?s'" unfolding asleep_def by blast
  with w show ?thesis by blast
qed

lemma asleep_ticks:
  assumes "asleep t w now s" and "now + int k \<le> sint w" and "sint w < 2 ^ 31 - 1"
  shows "\<exists>s'. WakeUp_times k s = Inr s' \<and> asleep t w (now + int k) s'"
  using assms
proof (induction k arbitrary: s now)
  case 0
  then show ?case by simp
next
  case (Suc k)
  from Suc.prems have "now < sint w" by simp
  from asleep_tick [OF Suc.prems(1) this Suc.prems(3)] obtain woken s1 where
    s1: "WakeUp s = Inr (woken, s1)" "asleep t w (now + 1) s1" by blast
  from Suc.prems have "now + 1 + int k \<le> sint w" by simp
  from Suc.IH [OF s1(2) this Suc.prems(3)] obtain s' where
    "WakeUp_times k s1 = Inr s'" "asleep t w (now + 1 + int k) s'" by blast
  moreover have "now + 1 + int k = now + int (Suc k)" by simp
  ultimately show ?case using s1(1) by simp
qed

lemma asleep_wake:
  assumes a: "asleep t w (sint w) s" and b: "sint w < 2 ^ 31 - 1"
  shows "\<exists>s'. WakeUp s = Inr (True, s') \<and> t \<in> set (readyList s')
     \<and> t \<notin> fst ` set (sleepingList s') \<and> status (threads s' t) = READY"
proof -
  let ?now = "current s + 1"
  let ?ex = "filter (expired ?now) (sleepingList s)"
  let ?keep = "filter (\<lambda>it. \<not> expired ?now it) (sleepingList s)"
  let ?s' = "(fold markReady (map fst ?ex) (s\<lparr>current := ?now\<rparr>))\<lparr>sleepingList := ?keep\<rparr>"
  from a have lv: "level s = IntOff" and c: "sint (current s) = sint w"
    and i: "(t, w) \<in> set (sleepingList s)"
    and u: "\<And>w'. (t, w') \<in> set (sleepingList s) \<Longrightarrow> w' = w"
    unfolding asleep_def by blast+
  have w: "WakeUp s = Inr (?ex \<noteq> [], ?s')" using lv by (rule WakeUp_IntOff)
  have "sint (current s) < 2 ^ 31 - 1" using c b by linarith
  from sint_succ_no_overflow [OF this] c have n: "sint ?now = sint w + 1" by simp
  have e: "expired ?now (t, w)" using n by (simp add: expired_def)
  with i have m: "(t, w) \<in> set ?ex" by simp
  then have ne: "?ex \<noteq> []" by (metis empty_iff empty_set)
  from m have tm: "t \<in> set (map fst ?ex)" by force
  have k: "t \<notin> fst ` set ?keep"
  proof
    assume "t \<in> fst ` set ?keep"
    then obtain w' where "(t, w') \<in> set (sleepingList s)" "\<not> expired ?now (t, w')" by auto
    with u e show False by blast
  qed
  have r: "t \<in> set (readyList ?s')" using tm by (simp add: set_readyList_fold_markReady)
  have st: "status (threads ?s' t) = READY" using status_fold_markReady [OF tm] by simp
  from ne have "(?ex \<noteq> []) = True" by simp
  with w have "WakeUp s = Inr (True, ?s')" by simp
  moreover have "t \<notin> fst ` set (sleepingList ?s')" using k by simp
  ultimately show ?thesis using r st by blast
qed

lemma FindNextToRun_Nil:
  "level s = IntOff \<Longrightarrow> readyList s = [] \<Longrightarrow> FindNextToRun s = Inr (None, s)"
  by (simp add: FindNextToRun_def IsEmpty_def)

lemma FindNextToRun_Cons:
  "level s = IntOff \<Longrightarrow> readyList s = x # xs \<Longrightarrow>
   FindNextToRun s = Inr (Some x, s\<lparr>readyList := xs\<rparr>)"
  by (simp add: FindNextToRun_def IsEmpty_def)

lemma released_step:
  "v < num \<Longrightarrow>
   released pt (Suc v) num (if names_page pt v e then e\<lparr>valid := False\<rparr> else e) = released pt v num e"
  by (auto simp: released_def names_page_def)

lemma released_done: "\<not> v < num \<Longrightarrow> released pt v num e = e"
  by (auto simp: released_def)

lemma ReleaseAll_loop_tables:
  "ReleaseAll_loop pt v num m =
     m\<lparr>frameTable := map (released pt v num) (frameTable m),
       swapTable := map (released pt v num) (swapTable m)\<rparr>"
proof (induction pt v num m rule: ReleaseAll_loop.induct)
  case (1 pt v num m)
  show ?case
  proof (cases "v < num")
    case True
    from 1 [OF True] True show ?thesis
      by (subst ReleaseAll_loop.simps) (simp add: release_page_def released_step o_def)
  next
    case False
    then have "map (released pt v num) xs = xs" for xs
      by (induction xs) (simp_all add: released_done)
    with False show ?thesis
      by (subst ReleaseAll_loop.simps) simp
  qed
qed

lemma lookup_page_None: "lookup_page pt v tbl = None \<longleftrightarrow> (\<forall>e \<in> set tbl. \<not> names_page pt v e)"
  by (auto simp add: lookup_page_def find_None_iff)

lemma PriorityCompare_less: "PriorityCompare h x y < 0 \<longleftrightarrow> priority (h x) < priority (h y)"
  by (simp add: PriorityCompare_def)

lemma PriorityCompare_setStatus: "PriorityCompare (setStatus t st h) = PriorityCompare h"
  by (intro ext) (simp add: PriorityCompare_def setStatus_def)

lemma priority_fold_markReady:
  "priority (threads (fold markReady ts s) u) = priority (threads s u)"
  by (induction ts arbitrary: s) (simp_all add: markReady_def setStatus_def)

lemma mset_SortedList_Insert: "mset (SortedList_Insert cmp x xs) = add_mset x (mset xs)"
  by (induction xs) simp_all

lemma sorted_SortedList_Insert:
  "sorted (map (\<lambda>t. priority (h t)) xs) \<Longrightarrow>
   sorted (map (\<lambda>t. priority (h t)) (SortedList_Insert (PriorityCompare h) x xs))"
  by (induction xs) (auto simp: PriorityCompare_less set_SortedList_Insert)

lemma filter_SortedList_Insert:
  "sorted (map (\<lambda>t. priority (h t)) xs) \<Longrightarrow>
   filter (\<lambda>y. priority (h y) = k) (SortedList_Insert (PriorityCompare h) x xs) =
   filter (\<lambda>y. priority (h y) = k) (xs @ [x])"
proof (induction xs)
  case Nil
  then show ?case by simp
next
  case (Cons y ys)
  show ?case
  proof (cases "priority (h x) < priority (h y)")
    case True
    with Cons.prems have "\<forall>z \<in> set (y # ys). priority (h x) < priority (h z)"
      by auto
    then have "priority (h x) = k \<Longrightarrow> filter (\<lambda>y. priority (h y) = k) (y # ys) = []"
      by (auto simp: filter_empty_conv)
    with True show ?thesis by (auto simp: PriorityCompare_less)
  next
    case False
    with Cons show ?thesis by (simp add: PriorityCompare_less)
  qed
qed

lemma fold_markReady_snoc: "fold markReady (ts @ [t]) s = markReady t (fold markReady ts s)"
  by simp

lemma readyList_markReady_Priority:
  "schedulerType s = Priority \<Longrightarrow>
   readyList (markReady t s) = SortedList_Insert (PriorityCompare (threads s)) t (readyList s)"
  by (simp add: markReady_def readyList_Append_def PriorityCompare_setStatus)

lemma PriorityCompare_fold_markReady:
  "PriorityCompare (threads (fold markReady ts s)) = PriorityCompare (threads s)"
  by (intro ext) (simp add: PriorityCompare_def priority_fold_markReady)

lemma Priority_readyList:
  assumes "schedulerType s = Priority"
    and "sorted (map (\<lambda>t. priority (threads s t)) (readyList s))"
  shows "sorted (map (\<lambda>t. priority (threads s t)) (readyList (fold markReady ts s)))
     \<and> (\<forall>k. filter (\<lambda>t. priority (threads s t) = k) (readyList (fold markReady ts s)) =
             filter (\<lambda>t. priority (threads s t) = k) (readyList s @ ts))
     \<and> mset (readyList (fold markReady ts s)) = mset (readyList s @ ts)"
proof (induction ts rule: rev_induct)
  case Nil
  then show ?case using assms by simp
next
  case (snoc t ts)
  let ?s = "fold markReady ts s"
  have ty: "schedulerType ?s = Priority" using assms(1) by simp
  have r: "readyList (fold markReady (ts @ [t]) s) =
      SortedList_Insert (PriorityCompare (threads s)) t (readyList ?s)"
    using readyList_markReady_Priority [OF ty, of t]
    by (simp add: PriorityCompare_fold_markReady)
  from snoc have so: "sorted (map (\<lambda>t. priority (threads s t)) (readyList ?s))"
    and fi: "\<And>k. filter (\<lambda>t. priority (threads s t) = k) (readyList ?s) =
             filter (\<lambda>t. priority (threads s t) = k) (readyList s @ ts)"
    and ms: "mset (readyList ?s) = mset (readyList s @ ts)" by blast+
  have 1: "sorted (map (\<lambda>t. priority (threads s t)) (readyList (fold markReady (ts @ [t]) s)))"
    unfolding r using so by (rule sorted_SortedList_Insert)
  have 2: "filter (\<lambda>t. priority (threads s t) = k) (readyList (fold markReady (ts @ [t]) s)) =
             filter (\<lambda>t. priority (threads s t) = k) (readyList s @ ts @ [t])" for k
    unfolding r using filter_SortedList_Insert [OF so, of k t] fi [of k] by simp
  have 3: "mset (readyList (fold markReady (ts @ [t]) s)) = mset (readyList s @ ts @ [t])"
    unfolding r using ms by (simp add: mset_SortedList_Insert)
  from 1 2 3 show ?case by blast
qed

lemma Priority_readyList_sort_key:
  assumes "schedulerType s = Priority"
    and "sorted (map (\<lambda>t. priority (threads s t)) (readyList s))"
  shows "readyList (fold markReady ts s) =
     sort_key (\<lambda>t. priority (threads s t)) (readyList s @ ts)"
proof -
  let ?ys = "readyList (fold markReady ts s)"
  from Priority_readyList [OF assms, of ts] have
    so: "sorted (map (\<lambda>t. priority (threads s t)) ?ys)"
    and fi: "\<And>k. filter (\<lambda>t. priority (threads s t) = k) ?ys =
             filter (\<lambda>t. priority (threads s t) = k) (readyList s @ ts)"
    and ms: "mset ?ys = mset (readyList s @ ts)" by blast+
  have "sort_key (\<lambda>t. priority (threads s t)) (readyList s @ ts) = ?ys"
  proof (rule properties_for_sort_key [OF ms _ so])
    fix k assume "k \<in> set ?ys"
    have "(\<lambda>x. priority (threads s k) = priority (threads s x)) =
        (\<lambda>x. priority (threads s x) = priority (threads s k))" by (intro ext) auto
    then show "filter (\<lambda>x. priority (threads s k) = priority (threads s x)) ?ys =
        filter (\<lambda>x. priority (threads s k) = priority (threads s x)) (readyList s @ ts)"
      using fi [of "priority (threads s k)"] by simp
  qed
  then show ?thesis by simp
qed

lemma FindNextToRun_times_all:
  "level s = IntOff \<Longrightarrow> readyList s = xs \<Longrightarrow>
   FindNextToRun_times (length xs) s = Inr (map Some xs, s\<lparr>readyList := []\<rparr>)"
proof (induction xs arbitrary: s)
  case Nil
  then show ?case by simp
next
  case (Cons x xs)
  let ?s = "s\<lparr>readyList := xs\<rparr>"
  have f: "FindNextToRun s = Inr (Some x, ?s)"
    using Cons.prems by (rule FindNextToRun_Cons)
  have "level ?s = IntOff" "readyList ?s = xs" using Cons.prems by simp_all
  from Cons.IH [OF this] f show ?case by simp
qed

lemma SelfTest_priority_scenario:
  assumes "distinct [a, b, c, d]" and "testcase = 0 \<or> testcase = 1"
  shows "\<exists>s'. SelfTest_forks testcase [a, b, c, d] (Scheduler_new Priority m lv h) = Inr s'
           \<and> readyList s' = [b, d, c, a]
           \<and> map (\<lambda>t. name (threads s' t)) (readyList s') = [''B'', ''D'', ''C'', ''A'']
           \<and> map (\<lambda>t. priority (threads s' t)) (readyList s') = [1, 2, 3, 5]
           \<and> FindNextToRun_times 4 (s'\<lparr>level := IntOff\<rparr>) =
               Inr ([Some b, Some d, Some c, Some a], s'\<lparr>level := IntOff, readyList := []\<rparr>)"
proof -
  from assms(2) have p: "thread_priority testcase = Some [5, 1, 3, 2]"
    by (auto simp: thread_priority_def)
  from assms(2) obtain bs where b: "thread_burst testcase = Some bs" "length bs = 4"
    by (auto simp: thread_burst_def)
  then obtain b0 b1 b2 b3 where bs: "bs = [b0, b1, b2, b3]"
    by (auto simp: length_Suc_conv eval_nat_numeral)
  from assms(1) show ?thesis
    by (simp add: SelfTest_forks_def p b bs thread_names_def Thread_Fork_def ReadyToRun_def
        readyList_Append_def PriorityCompare_def setStatus_def Scheduler_new_def Let_def
        eval_nat_numeral FindNextToRun_def IsEmpty_def)
qed

lemma mset_readyList_Append: "mset (readyList_Append ty h x xs) = add_mset x (mset xs)"
  by (cases ty) (simp_all add: readyList_Append_def List_Append_def mset_SortedList_Insert)

lemma mset_readyList_fold_markReady:
  "mset (readyList (fold markReady ts s)) = mset (readyList s) + mset ts"
  by (induction ts arbitrary: s) (simp_all add: markReady_def mset_readyList_Append)

lemma threads_fold_markReady_other:
  "t \<notin> set ts \<Longrightarrow> threads (fold markReady ts s) t = threads s t"
  by (induction ts arbitrary: s) (simp_all add: markReady_def setStatus_def)

lemma threads_fold_markReady_status_only:
  "(threads (fold markReady ts s) t)\<lparr>status := st\<rparr> = (threads s t)\<lparr>status := st\<rparr>"
  by (induction ts arbitrary: s) (simp_all add: markReady_def setStatus_def)

lemma setStatus_fields [simp]:
  "priority (setStatus t st h u) = priority (h u)"
  "burstTime (setStatus t st h u) = burstTime (h u)"
  "stackOverflowed (setStatus t st h u) = stackOverflowed (h u)"
  "name (setStatus t st h u) = name (h u)"
  by (simp_all add: setStatus_def)

lemma Dispatch_effect:
  assumes "level s = IntOff" and "toBeDestroyed s = None"
    and "\<not> stackOverflowed (threads s (currentThread s))"
  shows "\<exists>s'. Dispatch x fin s = Inr s'
     \<and> schedulerType s' = schedulerType s \<and> sleepingList s' = sleepingList s
     \<and> toBeDestroyed s' = None \<and> currentThread s' = x \<and> readyList s' = readyList s
     \<and> threads s' = setStatus x RUNNING (threads s) \<and> level s' = IntOff
     \<and> current s' = current s
     \<and> destroyed s' = (if fin then insert (currentThread s) (destroyed s) else destroyed s)"
  using assms
  by (simp add: Dispatch_def Run_before_SWITCH_def Run_after_SWITCH_def CheckToBeDestroyed_def Let_def)

lemma Thread_Yield_ready:
  assumes "ready_state K c (x # xs) s"
  shows "\<exists>s'. Thread_Yield s = Inr s'
     \<and> ready_state K x (SortedList_Insert (PriorityCompare (threads s)) c xs) s'
     \<and> (\<forall>t. burstTime (threads s' t) = burstTime (threads s t))
     \<and> (\<forall>t. name (threads s' t) = name (threads s t))"
proof -
  let ?s0 = "s\<lparr>level := IntOff\<rparr>"
  let ?s1 = "?s0\<lparr>readyList := xs\<rparr>"
  let ?s2 = "markReady c ?s1"
  from assms have a: "schedulerType s = Priority" "sleepingList s = []" "toBeDestroyed s = None"
    "currentThread s = c" "readyList s = x # xs" "\<And>t. priority (threads s t) = K t"
    "\<And>t. \<not> stackOverflowed (threads s t)"
    unfolding ready_state_def by blast+
  have f: "FindNextToRun ?s0 = Inr (Some x, ?s1)"
    using a(5) by (simp add: FindNextToRun_Cons)
  have r: "ReadyToRun (currentThread ?s1) ?s1 = Inr ?s2"
    using a(4) by (simp add: ReadyToRun_IntOff)
  have "level ?s2 = IntOff" "toBeDestroyed ?s2 = None"
    "\<not> stackOverflowed (threads ?s2 (currentThread ?s2))"
    using a(3,7) by (simp_all add: markReady_def)
  from Dispatch_effect [OF this, of x False] obtain s' where s':
    "Dispatch x False ?s2 = Inr s'"
    "schedulerType s' = schedulerType ?s2" "sleepingList s' = sleepingList ?s2"
    "toBeDestroyed s' = None" "currentThread s' = x" "readyList s' = readyList ?s2"
    "threads s' = setStatus x RUNNING (threads ?s2)"
    by blast
  have y: "Thread_Yield s = Inr s'"
    using f r s'(1) by (simp add: Thread_Yield_def)
  have rl: "readyList ?s2 = SortedList_Insert (PriorityCompare (threads s)) c xs"
    using a(1) by (simp add: markReady_def readyList_Append_def PriorityCompare_setStatus)
  have "ready_state K x (SortedList_Insert (PriorityCompare (threads s)) c xs) s'"
    unfolding ready_state_def using s'(2-7) rl a by (simp add: markReady_def)
  moreover have "\<forall>t. burstTime (threads s' t) = burstTime (threads s t)"
    using s'(7) by (simp add: markReady_def)
  moreover have "\<forall>t. name (threads s' t) = name (threads s t)"
    using s'(7) by (simp add: markReady_def)
  ultimately show ?thesis using y by blast
qed

lemma Thread_Finish_ready:
  assumes "ready_state K c rl s"
  shows "(rl = [] \<longrightarrow> (\<exists>s'. Thread_Finish s = Inr (False, s')
            \<and> (\<forall>t. name (threads s' t) = name (threads s t))))
     \<and> (\<forall>x xs. rl = x # xs \<longrightarrow>
          (\<exists>s'. Thread_Finish s = Inr (True, s') \<and> ready_state K x xs s'
             \<and> (\<forall>t. burstTime (threads s' t) = burstTime (threads s t))
             \<and> (\<forall>t. name (threads s' t) = name (threads s t))))"
proof (intro conjI allI impI)
  from assms have a: "schedulerType s = Priority" "sleepingList s = []" "toBeDestroyed s = None"
    "currentThread s = c" "readyList s = rl" "\<And>t. priority (threads s t) = K t"
    "\<And>t. \<not> stackOverflowed (threads s t)"
    unfolding ready_state_def by blast+
  let ?s0 = "s\<lparr>level := IntOff, threads := setStatus c BLOCKED (threads s)\<rparr>"
  have sl: "Thread_Sleep (currentThread s) (s\<lparr>level := IntOff\<rparr>) = Inr ?s0"
    using a(4) by (simp add: Thread_Sleep_def)
  {
    assume "rl = []"
    then have "FindNextToRun ?s0 = Inr (None, ?s0)"
      using a(5) by (simp add: FindNextToRun_Nil)
    with sl have "Thread_Finish s = Inr (False, ?s0)" by (simp add: Thread_Finish_def)
    moreover have "\<forall>t. name (threads ?s0 t) = name (threads s t)" by simp
    ultimately show "\<exists>s'. Thread_Finish s = Inr (False, s')
            \<and> (\<forall>t. name (threads s' t) = name (threads s t))" by blast
  }
  {
    fix x xs assume rl: "rl = x # xs"
    let ?s1 = "?s0\<lparr>readyList := xs\<rparr>"
    have f: "FindNextToRun ?s0 = Inr (Some x, ?s1)"
      using a(5) rl by (simp add: FindNextToRun_Cons)
    have "level ?s1 = IntOff" "toBeDestroyed ?s1 = None"
      "\<not> stackOverflowed (threads ?s1 (currentThread ?s1))"
      using a(3,7) by simp_all
    from Dispatch_effect [OF this, of x True] obtain s' where s':
      "Dispatch x True ?s1 = Inr s'"
      "schedulerType s' = schedulerType ?s1" "sleepingList s' = sleepingList ?s1"
      "toBeDestroyed s' = None" "currentThread s' = x" "readyList s' = readyList ?s1"
      "threads s' = setStatus x RUNNING (threads ?s1)"
      by blast
    have y: "Thread_Finish s = Inr (True, s')"
      using sl f s'(1) by (simp add: Thread_Finish_def)
    have "ready_state K x xs s'"
      unfolding ready_state_def using s'(2-7) a by simp
    moreover have "\<forall>t. burstTime (threads s' t) = burstTime (threads s t)"
      using s'(7) by simp
    moreover have "\<forall>t. name (threads s' t) = name (threads s t)"
      using s'(7) by simp
    ultimately show "\<exists>s'. Thread_Finish s = Inr (True, s') \<and> ready_state K x xs s'
             \<and> (\<forall>t. burstTime (threads s' t) = burstTime (threads s t))
             \<and> (\<forall>t. name (threads s' t) = name (threads s t))"
      using y by blast
  }
qed

lemma WakeUp_no_sleepers:
  "sleepingList s = [] \<Longrightarrow> level s = IntOff \<Longrightarrow>
   WakeUp s = Inr (False, s\<lparr>current := current s + 1\<rparr>)"
  by (simp add: WakeUp_IntOff)

lemma needYield_Priority:
  "schedulerType s = Priority \<Longrightarrow> readyList s = x # xs \<Longrightarrow>
   needYield s = (priority (threads s x) < priority (threads s (currentThread s)))"
  by (auto simp: needYield_def PriorityCompare_def)

lemma needYield_Nil: "readyList s = [] \<Longrightarrow> \<not> needYield s"
  by (simp add: needYield_def)

text \<open>One pass of the loop of a forked thread that is not advised to yield.\<close>

lemma threadBody_pass_stays:
  assumes r: "ready_state K c rl s" and b: "0 < burstTime (threads s c)"
    and p: "preempt \<longrightarrow> (\<forall>x \<in> set rl. K c \<le> K x)"
  shows "\<exists>s'. threadBody_pass preempt s = Inr (True, s') \<and> ready_state K c rl s'
     \<and> burstTime (threads s' c) = burstTime (threads s c) - 1
     \<and> (\<forall>t. t \<noteq> c \<longrightarrow> burstTime (threads s' t) = burstTime (threads s t))
     \<and> (\<forall>t. name (threads s' t) = name (threads s t))"
proof -
  from r have a: "schedulerType s = Priority" "sleepingList s = []" "toBeDestroyed s = None"
    "currentThread s = c" "readyList s = rl" "\<And>t. priority (threads s t) = K t"
    "\<And>t. \<not> stackOverflowed (threads s t)"
    unfolding ready_state_def by blast+
  let ?h = "(threads s)(c := (threads s c)\<lparr>burstTime := burstTime (threads s c) - 1\<rparr>)"
  let ?s0 = "s\<lparr>threads := ?h\<rparr>"
  let ?s1 = "?s0\<lparr>level := IntOff, current := current s + 1\<rparr>"
  have w: "WakeUp (?s0\<lparr>level := IntOff\<rparr>) = Inr (False, ?s1)"
    using a(2) by (simp add: WakeUp_no_sleepers)
  have pr: "priority (?h t) = K t" for t using a(6) by simp
  have ny: "\<not> (preempt \<and> needYield ?s1)"
  proof (cases rl)
    case Nil
    then show ?thesis using a(5) by (simp add: needYield_Nil)
  next
    case (Cons x xs)
    then have "needYield ?s1 = (K x < K c)"
      using a(1,4,5,6) by (simp add: needYield_Priority)
    with p Cons show ?thesis by auto
  qed
  have o: "OneTick preempt ?s0 = Inr ?s1"
    using w ny by (auto simp: OneTick_def)
  have t: "threadBody_pass preempt s = Inr (True, ?s1)"
    using b o a(4) by (simp add: threadBody_pass_def Let_def)
  have "ready_state K c rl ?s1"
    unfolding ready_state_def using a by simp
  moreover have "burstTime (threads ?s1 c) = burstTime (threads s c) - 1" by simp
  moreover have "\<forall>t. t \<noteq> c \<longrightarrow> burstTime (threads ?s1 t) = burstTime (threads s t)" by simp
  moreover have "\<forall>t. name (threads ?s1 t) = name (threads s t)" by simp
  ultimately show ?thesis using t by blast
qed

text \<open>One pass of the loop of a forked thread that is advised to yield and does.\<close>

lemma threadBody_pass_yields:
  assumes r: "ready_state K c (x # xs) s" and b: "0 < burstTime (threads s c)"
    and p: "preempt" and k: "K x < K c"
  shows "\<exists>s'. threadBody_pass preempt s = Inr (True, s')
     \<and> ready_state K x (SortedList_Insert (PriorityCompare (threads s)) c xs) s'
     \<and> burstTime (threads s' c) = burstTime (threads s c) - 1
     \<and> (\<forall>t. t \<noteq> c \<longrightarrow> burstTime (threads s' t) = burstTime (threads s t))
     \<and> (\<forall>t. name (threads s' t) = name (threads s t))"
proof -
  from r have a: "schedulerType s = Priority" "sleepingList s = []" "toBeDestroyed s = None"
    "currentThread s = c" "readyList s = x # xs" "\<And>t. priority (threads s t) = K t"
    "\<And>t. \<not> stackOverflowed (threads s t)"
    unfolding ready_state_def by blast+
  let ?h = "(threads s)(c := (threads s c)\<lparr>burstTime := burstTime (threads s c) - 1\<rparr>)"
  let ?s0 = "s\<lparr>threads := ?h\<rparr>"
  let ?s1 = "?s0\<lparr>level := IntOff, current := current s + 1\<rparr>"
  have w: "WakeUp (?s0\<lparr>level := IntOff\<rparr>) = Inr (False, ?s1)"
    using a(2) by (simp add: WakeUp_no_sleepers)
  have pr: "priority (?h t) = K t" for t using a(6) by simp
  have "needYield ?s1 = (K x < K c)"
    using a(1,4,5,6) by (simp add: needYield_Priority)
  with k p have ny: "preempt \<and> needYield ?s1" by simp
  have o: "OneTick preempt ?s0 = Thread_Yield ?s1"
    using w ny by (simp add: OneTick_def)
  have rs: "ready_state K c (x # xs) ?s1"
    unfolding ready_state_def using a by simp
  have pc: "PriorityCompare (threads ?s1) = PriorityCompare (threads s)"
    by (intro ext) (simp add: PriorityCompare_def)
  from Thread_Yield_ready [OF rs] obtain s' where s':
    "Thread_Yield ?s1 = Inr s'"
    "ready_state K x (SortedList_Insert (PriorityCompare (threads ?s1)) c xs) s'"
    "\<forall>t. burstTime (threads s' t) = burstTime (threads ?s1 t)"
    "\<forall>t. name (threads s' t) = name (threads ?s1 t)"
    by blast
  have t: "threadBody_pass preempt s = Inr (True, s')"
    using b o s'(1) a(4) by (simp add: threadBody_pass_def Let_def)
  have "ready_state K x (SortedList_Insert (PriorityCompare (threads s)) c xs) s'"
    using s'(2) unfolding pc .
  moreover have "burstTime (threads s' c) = burstTime (threads s c) - 1"
    using s'(3) by simp
  moreover have "\<forall>t. t \<noteq> c \<longrightarrow> burstTime (threads s' t) = burstTime (threads s t)"
    using s'(3) by simp
  moreover have "\<forall>t. name (threads s' t) = name (threads s t)"
    using s'(4) by simp
  ultimately show ?thesis using t by blast
qed

lemma threadBody_pass_done:
  "\<not> 0 < burstTime (threads s (currentThread s)) \<Longrightarrow> threadBody_pass preempt s = Inr (False, s)"
  by (simp add: threadBody_pass_def Let_def)

lemma machine_run_idle: "idle M \<Longrightarrow> machine_run preempt forked n M = Inr M"
  by (induction n) (simp_all add: machine_step_def)

lemma machine_run_add:
  "machine_run preempt forked (m + n) M =
     (case machine_run preempt forked m M of
        Inl e \<Rightarrow> Inl e
      | Inr M' \<Rightarrow> machine_run preempt forked n M')"
  by (induction m arbitrary: M) (simp_all split: sum.splits)

text \<open>A forked thread that is not advised to yield runs its loop to the end.\<close>

lemma machine_run_passes:
  assumes "ready_state K c rl (sched M)" and "\<not> idle M" and "c \<in> set forked"
    and "preempt \<longrightarrow> (\<forall>x \<in> set rl. K c \<le> K x)"
    and "k = nat (burstTime (threads (sched M) c))"
  shows "\<exists>s'. machine_run preempt forked k M = Inr (M\<lparr>sched := s'\<rparr>) \<and> ready_state K c rl s'
     \<and> \<not> 0 < burstTime (threads s' c)
     \<and> (\<forall>t. t \<noteq> c \<longrightarrow> burstTime (threads s' t) = burstTime (threads (sched M) t))
     \<and> (\<forall>t. name (threads s' t) = name (threads (sched M) t))"
  using assms
proof (induction k arbitrary: M)
  case 0
  then have "\<not> 0 < burstTime (threads (sched M) c)" by simp
  moreover have "M\<lparr>sched := sched M\<rparr> = M" by simp
  ultimately show ?case using 0 by (intro exI [of _ "sched M"]) simp
next
  case (Suc k)
  then have b: "0 < burstTime (threads (sched M) c)" by simp
  from threadBody_pass_stays [OF Suc.prems(1) b Suc.prems(4)] obtain s1 where s1:
    "threadBody_pass preempt (sched M) = Inr (True, s1)" "ready_state K c rl s1"
    "burstTime (threads s1 c) = burstTime (threads (sched M) c) - 1"
    "\<forall>t. t \<noteq> c \<longrightarrow> burstTime (threads s1 t) = burstTime (threads (sched M) t)"
    "\<forall>t. name (threads s1 t) = name (threads (sched M) t)"
    by blast
  let ?M1 = "M\<lparr>sched := s1\<rparr>"
  from Suc.prems(1) have cur: "currentThread (sched M) = c" by (simp add: ready_state_def)
  have st: "machine_step preempt forked M = Inr ?M1"
    using Suc.prems(2,3) cur s1(1) by (simp add: machine_step_def)
  have "ready_state K c rl (sched ?M1)" "\<not> idle ?M1" using s1(2) Suc.prems(2) by simp_all
  moreover have "k = nat (burstTime (threads (sched ?M1) c))" using s1(3) Suc.prems(5) by simp
  ultimately obtain s' where s':
    "machine_run preempt forked k ?M1 = Inr (?M1\<lparr>sched := s'\<rparr>)" "ready_state K c rl s'"
    "\<not> 0 < burstTime (threads s' c)"
    "\<forall>t. t \<noteq> c \<longrightarrow> burstTime (threads s' t) = burstTime (threads (sched ?M1) t)"
    "\<forall>t. name (threads s' t) = name (threads (sched ?M1) t)"
    using Suc.IH [of ?M1] Suc.prems(3,4) by blast
  have "machine_run preempt forked (Suc k) M = Inr (M\<lparr>sched := s'\<rparr>)"
    using st s'(1) by simp
  moreover have "\<forall>t. t \<noteq> c \<longrightarrow> burstTime (threads s' t) = burstTime (threads (sched M) t)"
    using s'(4) s1(4) by simp
  moreover have "\<forall>t. name (threads s' t) = name (threads (sched M) t)"
    using s'(5) s1(5) by simp
  ultimately show ?case using s'(2,3) by blast
qed

text \<open>A thread whose loop is over, or the caller of the self test, finishes.\<close>

lemma machine_step_finish:
  assumes r: "ready_state K c rl (sched M)" and i: "\<not> idle M"
    and d: "c \<in> set forked \<longrightarrow> \<not> 0 < burstTime (threads (sched M) c)"
  shows "(rl = [] \<longrightarrow> (\<exists>s'. machine_step preempt forked M =
              Inr \<lparr> sched = s', completed = completed M @ [c], idle = True \<rparr>
            \<and> (\<forall>t. name (threads s' t) = name (threads (sched M) t))))
     \<and> (\<forall>x xs. rl = x # xs \<longrightarrow>
          (\<exists>s'. machine_step preempt forked M =
              Inr \<lparr> sched = s', completed = completed M @ [c], idle = False \<rparr>
             \<and> ready_state K x xs s'
             \<and> (\<forall>t. burstTime (threads s' t) = burstTime (threads (sched M) t))
             \<and> (\<forall>t. name (threads s' t) = name (threads (sched M) t))))"
proof -
  from r have cur: "currentThread (sched M) = c" by (simp add: ready_state_def)
  have st: "machine_step preempt forked M = machine_finish M"
    using i d cur by (simp add: machine_step_def threadBody_pass_done)
  note f = Thread_Finish_ready [OF r]
  show ?thesis
  proof (intro conjI allI impI)
    assume "rl = []"
    with f obtain s' where "Thread_Finish (sched M) = Inr (False, s')"
      "\<forall>t. name (threads s' t) = name (threads (sched M) t)" by blast
    then show "\<exists>s'. machine_step preempt forked M =
              Inr \<lparr> sched = s', completed = completed M @ [c], idle = True \<rparr>
            \<and> (\<forall>t. name (threads s' t) = name (threads (sched M) t))"
      using st cur by (auto simp: machine_finish_def)
  next
    fix x xs assume "rl = x # xs"
    with f obtain s' where "Thread_Finish (sched M) = Inr (True, s')" "ready_state K x xs s'"
      "\<forall>t. burstTime (threads s' t) = burstTime (threads (sched M) t)"
      "\<forall>t. name (threads s' t) = name (threads (sched M) t)" by blast
    then show "\<exists>s'. machine_step preempt forked M =
              Inr \<lparr> sched = s', completed = completed M @ [c], idle = False \<rparr>
             \<and> ready_state K x xs s'
             \<and> (\<forall>t. burstTime (threads s' t) = burstTime (threads (sched M) t))
             \<and> (\<forall>t. name (threads s' t) = name (threads (sched M) t))"
      using st cur by (auto simp: machine_finish_def)
  qed
qed

lemma steps_left_cong:
  "(\<forall>t \<in> set ts. burstTime (threads s t) = burstTime (threads s' t)) \<Longrightarrow>
   steps_left forked s ts = steps_left forked s' ts"
  by (induction ts) (simp_all add: passes_left_def)

lemma machine_run_one:
  "machine_run preempt forked (Suc 0) M = machine_step preempt forked M"
  by (simp split: sum.splits)

text \<open>Under Priority, the running thread and then the ready list complete in order.\<close>

lemma machine_run_completes:
  assumes "ready_state K c rl (sched M)" and "\<not> idle M" and "distinct (c # rl)"
    and "sorted (map K rl)" and "preempt \<longrightarrow> (\<forall>x \<in> set rl. K c \<le> K x)"
  shows "\<exists>M'. machine_run preempt forked (steps_left forked (sched M) (c # rl)) M = Inr M'
     \<and> idle M' \<and> completed M' = completed M @ c # rl
     \<and> (\<forall>t. name (threads (sched M') t) = name (threads (sched M) t))"
  using assms
proof (induction rl arbitrary: M c)
  case Nil
  let ?k = "passes_left forked (sched M) c"
  have "\<exists>s1. machine_run preempt forked ?k M = Inr (M\<lparr>sched := s1\<rparr>) \<and> ready_state K c [] s1
     \<and> (c \<in> set forked \<longrightarrow> \<not> 0 < burstTime (threads s1 c))
     \<and> (\<forall>t. name (threads s1 t) = name (threads (sched M) t))"
  proof (cases "c \<in> set forked")
    case True
    then have "?k = nat (burstTime (threads (sched M) c))" by (simp add: passes_left_def)
    from machine_run_passes [OF Nil.prems(1,2) True Nil.prems(5) this] show ?thesis by blast
  next
    case False
    then have "?k = 0" by (simp add: passes_left_def)
    moreover have "M\<lparr>sched := sched M\<rparr> = M" by simp
    ultimately show ?thesis using False Nil.prems(1) by (intro exI [of _ "sched M"]) simp
  qed
  then obtain s1 where s1: "machine_run preempt forked ?k M = Inr (M\<lparr>sched := s1\<rparr>)"
    "ready_state K c [] s1" "c \<in> set forked \<longrightarrow> \<not> 0 < burstTime (threads s1 c)"
    "\<forall>t. name (threads s1 t) = name (threads (sched M) t)" by blast
  let ?M1 = "M\<lparr>sched := s1\<rparr>"
  have "ready_state K c [] (sched ?M1)" "\<not> idle ?M1"
    "c \<in> set forked \<longrightarrow> \<not> 0 < burstTime (threads (sched ?M1) c)"
    using s1(2,3) Nil.prems(2) by simp_all
  from machine_step_finish [OF this, of preempt] obtain s2 where s2:
    "machine_step preempt forked ?M1 =
       Inr \<lparr> sched = s2, completed = completed ?M1 @ [c], idle = True \<rparr>"
    "\<forall>t. name (threads s2 t) = name (threads (sched ?M1) t)" by blast
  let ?M2 = "\<lparr> sched = s2, completed = completed M @ [c], idle = True \<rparr>"
  have "machine_run preempt forked (?k + Suc 0) M = Inr ?M2"
    unfolding machine_run_add using s1(1) s2(1) by (simp add: machine_run_one del: machine_run.simps)
  moreover have "steps_left forked (sched M) [c] = ?k + Suc 0" by simp
  moreover have "\<forall>t. name (threads (sched ?M2) t) = name (threads (sched M) t)"
    using s1(4) s2(2) by simp
  ultimately show ?case by (intro exI [of _ ?M2]) simp
next
  case (Cons x xs)
  let ?k = "passes_left forked (sched M) c"
  have "\<exists>s1. machine_run preempt forked ?k M = Inr (M\<lparr>sched := s1\<rparr>)
     \<and> ready_state K c (x # xs) s1
     \<and> (c \<in> set forked \<longrightarrow> \<not> 0 < burstTime (threads s1 c))
     \<and> (\<forall>t. t \<noteq> c \<longrightarrow> burstTime (threads s1 t) = burstTime (threads (sched M) t))
     \<and> (\<forall>t. name (threads s1 t) = name (threads (sched M) t))"
  proof (cases "c \<in> set forked")
    case True
    then have "?k = nat (burstTime (threads (sched M) c))" by (simp add: passes_left_def)
    from machine_run_passes [OF Cons.prems(1,2) True Cons.prems(5) this] show ?thesis by blast
  next
    case False
    then have "?k = 0" by (simp add: passes_left_def)
    moreover have "M\<lparr>sched := sched M\<rparr> = M" by simp
    ultimately show ?thesis using False Cons.prems(1) by (intro exI [of _ "sched M"]) simp
  qed
  then obtain s1 where s1: "machine_run preempt forked ?k M = Inr (M\<lparr>sched := s1\<rparr>)"
    "ready_state K c (x # xs) s1" "c \<in> set forked \<longrightarrow> \<not> 0 < burstTime (threads s1 c)"
    "\<forall>t. t \<noteq> c \<longrightarrow> burstTime (threads s1 t) = burstTime (threads (sched M) t)"
    "\<forall>t. name (threads s1 t) = name (threads (sched M) t)" by blast
  let ?M1 = "M\<lparr>sched := s1\<rparr>"
  have "ready_state K c (x # xs) (sched ?M1)" "\<not> idle ?M1"
    "c \<in> set forked \<longrightarrow> \<not> 0 < burstTime (threads (sched ?M1) c)"
    using s1(2,3) Cons.prems(2) by simp_all
  from machine_step_finish [OF this, of preempt] obtain s2 where s2:
    "machine_step preempt forked ?M1 =
       Inr \<lparr> sched = s2, completed = completed ?M1 @ [c], idle = False \<rparr>"
    "ready_state K x xs s2"
    "\<forall>t. burstTime (threads s2 t) = burstTime (threads (sched ?M1) t)"
    "\<forall>t. name (threads s2 t) = name (threads (sched ?M1) t)" by blast
  let ?M2 = "\<lparr> sched = s2, completed = completed M @ [c], idle = False \<rparr>"
  have r2: "machine_run preempt forked (?k + Suc 0) M = Inr ?M2"
    unfolding machine_run_add using s1(1) s2(1) by (simp add: machine_run_one del: machine_run.simps)
  have p2: "ready_state K x xs (sched ?M2)" "\<not> idle ?M2" using s2(2) by simp_all
  have d2: "distinct (x # xs)" using Cons.prems(3) by simp
  have so2: "sorted (map K xs)" using Cons.prems(4) by simp
  have le2: "preempt \<longrightarrow> (\<forall>y \<in> set xs. K x \<le> K y)" using Cons.prems(4) by simp
  from Cons.IH [OF p2 d2 so2 le2] obtain M' where M':
    "machine_run preempt forked (steps_left forked (sched ?M2) (x # xs)) ?M2 = Inr M'"
    "idle M'" "completed M' = completed ?M2 @ x # xs"
    "\<forall>t. name (threads (sched M') t) = name (threads (sched ?M2) t)" by blast
  have "\<forall>t \<in> set (x # xs). burstTime (threads s2 t) = burstTime (threads (sched M) t)"
    using s2(3) s1(4) Cons.prems(3) by auto
  then have sl: "steps_left forked (sched ?M2) (x # xs) = steps_left forked (sched M) (x # xs)"
    using steps_left_cong [of "x # xs" s2 "sched M" forked] by simp
  have "steps_left forked (sched M) (c # x # xs) =
      (?k + Suc 0) + steps_left forked (sched M) (x # xs)" by simp
  then have "machine_run preempt forked (steps_left forked (sched M) (c # x # xs)) M = Inr M'"
    using r2 M'(1) sl by (simp only: machine_run_add sum.case)
  moreover have "completed M' = completed M @ c # x # xs" using M'(3) by simp
  moreover have "\<forall>t. name (threads (sched M') t) = name (threads (sched M) t)"
    using M'(4) s2(4) s1(5) by simp
  ultimately show ?case using M'(2) by blast
qed

lemma steps_left_mset:
  "steps_left forked s ts = (\<Sum>t \<leftarrow> ts. passes_left forked s t + 1)"
  by (induction ts) simp_all

lemma steps_left_perm:
  "mset ts = mset us \<Longrightarrow> steps_left forked s ts = steps_left forked s us"
  unfolding steps_left_mset
  by (metis mset_map sum_mset_sum_list)

lemma filter_SortedList_Insert_other:
  "\<not> P x \<Longrightarrow> filter P (SortedList_Insert cmp x xs) = filter P xs"
  by (induction xs) simp_all

lemma machine_run_enough:
  assumes "machine_run preempt forked k M = Inr M'" and "idle M'" and "k \<le> n"
  shows "machine_run preempt forked n M = Inr M'"
proof -
  from assms(3) have "n = k + (n - k)" by simp
  then have "machine_run preempt forked n M =
      (case machine_run preempt forked k M of
         Inl e \<Rightarrow> Inl e | Inr M1 \<Rightarrow> machine_run preempt forked (n - k) M1)"
    using machine_run_add [of preempt forked k "n - k" M] by simp
  with assms(1,2) show ?thesis by (simp add: machine_run_idle)
qed

lemma SelfTest_forks_state:
  assumes "distinct [a, b, c, d]" and "m \<notin> set [a, b, c, d]"
    and "\<forall>t. \<not> stackOverflowed (h t)" and "testcase = 0 \<or> testcase = 1"
  shows "\<exists>s1. SelfTest_forks testcase [a, b, c, d] (Scheduler_new Priority m lv h) = Inr s1
     \<and> ready_state (\<lambda>t. priority (threads s1 t)) m [b, d, c, a] s1
     \<and> priority (threads s1 a) = 5 \<and> priority (threads s1 b) = 1
     \<and> priority (threads s1 c) = 3 \<and> priority (threads s1 d) = 2
     \<and> name (threads s1 a) = ''A'' \<and> name (threads s1 b) = ''B''
     \<and> name (threads s1 c) = ''C'' \<and> name (threads s1 d) = ''D''
     \<and> 0 < burstTime (threads s1 b)
     \<and> nat (burstTime (threads s1 a)) + nat (burstTime (threads s1 b))
         + nat (burstTime (threads s1 c)) + nat (burstTime (threads s1 d)) \<le> 22"
proof -
  from assms(4) have p: "thread_priority testcase = Some [5, 1, 3, 2]"
    by (auto simp: thread_priority_def)
  from assms(4) have "thread_burst testcase = Some [3, 9, 7, 3]
      \<or> thread_burst testcase = Some [1, 9, 2, 3]"
    by (auto simp: thread_burst_def)
  then show ?thesis
  proof
    assume b: "thread_burst testcase = Some [3, 9, 7, 3]"
    from assms(1,2,3) show ?thesis
      by (simp add: SelfTest_forks_def p b thread_names_def Thread_Fork_def ReadyToRun_def
          readyList_Append_def PriorityCompare_def setStatus_def Scheduler_new_def Let_def
          ready_state_def)
  next
    assume b: "thread_burst testcase = Some [1, 9, 2, 3]"
    from assms(1,2,3) show ?thesis
      by (simp add: SelfTest_forks_def p b thread_names_def Thread_Fork_def ReadyToRun_def
          readyList_Append_def PriorityCompare_def setStatus_def Scheduler_new_def Let_def
          ready_state_def)
  qed
qed

lemma SelfTest_completion:
  assumes d: "distinct [a, b, c, d]" and m: "m \<notin> set [a, b, c, d]"
    and so: "\<forall>t. \<not> stackOverflowed (h t)" and tc: "testcase = 0 \<or> testcase = 1"
    and n: "27 \<le> n"
  shows "\<exists>M. SelfTest_run preempt testcase [a, b, c, d] n (Scheduler_new Priority m lv h) = Inr M
     \<and> idle M
     \<and> filter (\<lambda>t. t \<in> set [a, b, c, d]) (completed M) = [b, d, c, a]
     \<and> map (\<lambda>t. name (threads (sched M) t)) [b, d, c, a] = [''B'', ''D'', ''C'', ''A'']
     \<and> mset (completed M) = mset [m, a, b, c, d]"
proof -
  let ?F = "[a, b, c, d]"
  from SelfTest_forks_state [OF d m so tc, of lv] obtain s1 where s1:
    "SelfTest_forks testcase ?F (Scheduler_new Priority m lv h) = Inr s1"
    "ready_state (\<lambda>t. priority (threads s1 t)) m [b, d, c, a] s1"
    and pr: "priority (threads s1 a) = 5" "priority (threads s1 b) = 1"
      "priority (threads s1 c) = 3" "priority (threads s1 d) = 2"
    and nm: "name (threads s1 a) = ''A''" "name (threads s1 b) = ''B''"
      "name (threads s1 c) = ''C''" "name (threads s1 d) = ''D''"
    and bb: "0 < burstTime (threads s1 b)"
    and bs: "nat (burstTime (threads s1 a)) + nat (burstTime (threads s1 b))
         + nat (burstTime (threads s1 c)) + nat (burstTime (threads s1 d)) \<le> 22"
    by blast
  define K where "K = (\<lambda>t. priority (threads s1 t))"
  have K: "K a = 5" "K b = 1" "K c = 3" "K d = 2" using pr by (simp_all add: K_def)
  have less: "PriorityCompare (threads s1) x y < 0 \<longleftrightarrow> K x < K y" for x y
    by (simp add: PriorityCompare_less K_def)
  define rl where "rl = SortedList_Insert (PriorityCompare (threads s1)) m [d, c, a]"
  from Thread_Yield_ready [OF s1(2)] obtain s2 where s2:
    "Thread_Yield s1 = Inr s2" "ready_state K b rl s2"
    "\<forall>t. burstTime (threads s2 t) = burstTime (threads s1 t)"
    "\<forall>t. name (threads s2 t) = name (threads s1 t)"
    unfolding K_def rl_def by blast
  let ?M0 = "\<lparr> sched = s2, completed = [], idle = False \<rparr>"
  have run: "SelfTest_run preempt testcase ?F n (Scheduler_new Priority m lv h) =
      machine_run preempt ?F n ?M0"
    using s1(1) s2(1) by (simp add: SelfTest_run_def SelfTest_def)
  have mF: "m \<notin> set ?F" using m by simp
  have pc2: "PriorityCompare (threads s2) = PriorityCompare (threads s1)"
    using s2(2) by (intro ext) (simp add: PriorityCompare_def ready_state_def K_def)
  have srl: "sorted (map K rl)"
    unfolding K_def rl_def by (rule sorted_SortedList_Insert) (simp add: pr)
  have mrl: "mset rl = mset [m, d, c, a]"
    unfolding rl_def by (simp only: mset_SortedList_Insert mset.simps)
  have "filter (\<lambda>t. t \<in> set ?F) rl = filter (\<lambda>t. t \<in> set ?F) [d, c, a]"
    unfolding rl_def using mF by (rule filter_SortedList_Insert_other)
  then have frl: "filter (\<lambda>t. t \<in> set ?F) rl = [d, c, a]" by simp
  have "mset (b # rl) = mset [b, m, d, c, a]" using mrl by simp
  moreover have "distinct [b, m, d, c, a]" using d m by auto
  ultimately have db: "distinct (b # rl)" by (metis mset_eq_imp_distinct_iff)
  have setrl: "set rl = {m, d, c, a}"
    unfolding rl_def by (simp only: set_SortedList_Insert) simp
  have names: "map (\<lambda>t. name (threads s t)) [b, d, c, a] = [''B'', ''D'', ''C'', ''A'']"
    if "\<forall>t. name (threads s t) = name (threads s1 t)" for s
    using that nm by simp
  have total: "steps_left ?F s [m, a, b, c, d] \<le> 27"
    if "\<forall>t. burstTime (threads s t) \<le> burstTime (threads s1 t)" for s
  proof -
    have "nat (burstTime (threads s t)) \<le> nat (burstTime (threads s1 t))" for t
      using that by (simp add: nat_mono)
    from this [of a] this [of b] this [of c] this [of d] bs show ?thesis
      using mF by (simp add: passes_left_def)
  qed
  show ?thesis
  proof (cases "preempt \<and> K m < 1")
    case False
    then have le: "preempt \<longrightarrow> (\<forall>x \<in> set rl. K b \<le> K x)"
      using K by (auto simp: setrl)
    have "ready_state K b rl (sched ?M0)" "\<not> idle ?M0" using s2(2) by simp_all
    from machine_run_completes [OF this db srl le, of ?F] obtain M' where M':
      "machine_run preempt ?F (steps_left ?F (sched ?M0) (b # rl)) ?M0 = Inr M'"
      "idle M'" "completed M' = completed ?M0 @ b # rl"
      "\<forall>t. name (threads (sched M') t) = name (threads (sched ?M0) t)" by blast
    have "mset (b # rl) = mset [m, a, b, c, d]" using mrl by simp
    then have "steps_left ?F s2 (b # rl) = steps_left ?F s2 [m, a, b, c, d]"
      by (rule steps_left_perm)
    also have "\<dots> \<le> 27" using s2(3) by (intro total) simp
    finally have "steps_left ?F (sched ?M0) (b # rl) \<le> n" using n by simp
    from machine_run_enough [OF M'(1,2) this] have r: "machine_run preempt ?F n ?M0 = Inr M'" .
    have f: "filter (\<lambda>t. t \<in> set ?F) (completed M') = [b, d, c, a]"
      using M'(3) frl by simp
    have nn: "map (\<lambda>t. name (threads (sched M') t)) [b, d, c, a] = [''B'', ''D'', ''C'', ''A'']"
      using M'(4) s2(4) by (intro names) simp
    have ms: "mset (completed M') = mset [m, a, b, c, d]"
      using M'(3) mrl by simp
    from r f nn ms M'(2) show ?thesis unfolding run by (intro exI conjI)
  next
    case True
    then have pre: preempt and km: "K m < 1" by simp_all
    have rl: "rl = [m, d, c, a]" unfolding rl_def using km K by (simp add: less)
    have b2: "0 < burstTime (threads s2 b)" using bb s2(3) by simp
    have kb: "K m < K b" using km K by simp
    have r2: "ready_state K b (m # [d, c, a]) s2" using s2(2) rl by simp
    from threadBody_pass_yields [OF r2 b2 pre kb] obtain s3 where s3:
      "threadBody_pass preempt s2 = Inr (True, s3)"
      "ready_state K m (SortedList_Insert (PriorityCompare (threads s2)) b [d, c, a]) s3"
      "burstTime (threads s3 b) = burstTime (threads s2 b) - 1"
      "\<forall>t. t \<noteq> b \<longrightarrow> burstTime (threads s3 t) = burstTime (threads s2 t)"
      "\<forall>t. name (threads s3 t) = name (threads s2 t)" by blast
    have rl3: "SortedList_Insert (PriorityCompare (threads s2)) b [d, c, a] = [b, d, c, a]"
      unfolding pc2 using K by (simp add: less)
    let ?M3 = "\<lparr> sched = s3, completed = [], idle = False \<rparr>"
    have cur: "currentThread s2 = b" using s2(2) by (simp add: ready_state_def)
    have st: "machine_step preempt ?F ?M0 = Inr ?M3"
      using s3(1) cur by (simp add: machine_step_def)
    have "ready_state K m [b, d, c, a] (sched ?M3)" "\<not> idle ?M3"
      using s3(2) rl3 by simp_all
    moreover have "distinct (m # [b, d, c, a])" using d m by auto
    moreover have "sorted (map K [b, d, c, a])" using K by simp
    moreover have "preempt \<longrightarrow> (\<forall>x \<in> set [b, d, c, a]. K m \<le> K x)" using km K by simp
    ultimately obtain M' where M':
      "machine_run preempt ?F (steps_left ?F (sched ?M3) (m # [b, d, c, a])) ?M3 = Inr M'"
      "idle M'" "completed M' = completed ?M3 @ m # [b, d, c, a]"
      "\<forall>t. name (threads (sched M') t) = name (threads (sched ?M3) t)"
      using machine_run_completes [of K m "[b, d, c, a]" ?M3 preempt ?F] by blast
    let ?N = "steps_left ?F s3 (m # [b, d, c, a])"
    have r3: "machine_run preempt ?F (Suc ?N) ?M0 = Inr M'"
      using st M'(1) by simp
    have b3: "burstTime (threads s3 t) = (if t = b then burstTime (threads s1 t) - 1
        else burstTime (threads s1 t))" for t
      using s3(3,4) s2(3) by simp
    have "mset (m # [b, d, c, a]) = mset [m, a, b, c, d]" by simp
    then have "?N = steps_left ?F s3 [m, a, b, c, d]" by (rule steps_left_perm)
    also have "\<dots> = nat (burstTime (threads s1 a)) + nat (burstTime (threads s1 b) - 1)
        + nat (burstTime (threads s1 c)) + nat (burstTime (threads s1 d)) + 5"
      using mF d by (auto simp: passes_left_def b3)
    also have "\<dots> \<le> 26" using bs bb by simp
    finally have "Suc ?N \<le> n" using n by simp
    from machine_run_enough [OF r3 M'(2) this] have r: "machine_run preempt ?F n ?M0 = Inr M'" .
    have f: "filter (\<lambda>t. t \<in> set ?F) (completed M') = [b, d, c, a]"
      using M'(3) mF d by simp
    have nn: "map (\<lambda>t. name (threads (sched M') t)) [b, d, c, a] = [''B'', ''D'', ''C'', ''A'']"
      using M'(4) s3(5) s2(4) by (intro names) simp
    have ms: "mset (completed M') = mset [m, a, b, c, d]"
      using M'(3) by simp
    from r f nn ms M'(2) show ?thesis unfolding run by (intro exI conjI)
  qed
qed

section \<open>Selecting the next thread\<close>

text \<open>
  Claim C8. With interrupts disabled, as the assertion of \<^verbatim>\<open>FindNextToRun\<close> requires,
  the call returns no thread and leaves the scheduler as it is when the ready list is
  empty; otherwise it returns the head of the ready list and removes it from the list.
  Whenever it returns, the currently running thread is the one it was.
\<close>

theorem FindNextToRun_head_or_none:
  assumes "level s = IntOff"
  shows "(readyList s = [] \<longrightarrow> FindNextToRun s = Inr (None, s))
       \<and> (\<forall>x xs. readyList s = x # xs \<longrightarrow> FindNextToRun s = Inr (Some x, s\<lparr>readyList := xs\<rparr>))
       \<and> (\<forall>r s'. FindNextToRun s = Inr (r, s') \<longrightarrow> currentThread s' = currentThread s)"
  using assms
  by (cases "readyList s") (auto simp: FindNextToRun_def IsEmpty_def split: if_splits)

theorem FindNextToRun_head_or_none_witness:
  "FindNextToRun (Scheduler_new FCFS 0 IntOff idle_threads) =
     Inr (None, Scheduler_new FCFS 0 IntOff idle_threads)
   \<and> FindNextToRun ((Scheduler_new FCFS 0 IntOff idle_threads)\<lparr>readyList := [4, 7]\<rparr>) =
     Inr (Some 4, (Scheduler_new FCFS 0 IntOff idle_threads)\<lparr>readyList := [7]\<rparr>)"
  using FindNextToRun_head_or_none [of "Scheduler_new FCFS 0 IntOff idle_threads"]
    FindNextToRun_head_or_none [of "(Scheduler_new FCFS 0 IntOff idle_threads)\<lparr>readyList := [4, 7]\<rparr>"]
  by (simp add: Scheduler_new_def)

section \<open>Advice to yield\<close>

text \<open>
  Claim C2. \<^verbatim>\<open>needYield\<close> is false when the ready list is empty and false under FCFS.
  Under SJF and Priority, with a thread at the head of the ready list, it is true exactly
  when the policy's comparator puts that head strictly before the running thread.
\<close>

theorem needYield_head_precedes:
  "(readyList s = [] \<longrightarrow> \<not> needYield s)
   \<and> (schedulerType s = FCFS \<longrightarrow> \<not> needYield s)
   \<and> (\<forall>next rest. readyList s = next # rest \<longrightarrow>
        (schedulerType s = SJF \<longrightarrow>
           needYield s = (SJFCompare (threads s) next (currentThread s) < 0))
      \<and> (schedulerType s = Priority \<longrightarrow>
           needYield s = (PriorityCompare (threads s) next (currentThread s) < 0)))"
  by (cases "readyList s")
    (auto simp: needYield_def SJFCompare_def PriorityCompare_def
      split: option.splits SchedulerType.splits)

theorem needYield_head_precedes_witness:
  "needYield ((Scheduler_new SJF 0 IntOff
       (idle_threads(0 := main_thread\<lparr>burstTime := 9\<rparr>, 1 := main_thread\<lparr>burstTime := 3\<rparr>)))
       \<lparr>readyList := [1]\<rparr>)
   \<and> \<not> needYield ((Scheduler_new Priority 0 IntOff
       (idle_threads(0 := main_thread\<lparr>priority := 2\<rparr>, 1 := main_thread\<lparr>priority := 2\<rparr>)))
       \<lparr>readyList := [1]\<rparr>)"
  using needYield_head_precedes [of "(Scheduler_new SJF 0 IntOff
       (idle_threads(0 := main_thread\<lparr>burstTime := 9\<rparr>, 1 := main_thread\<lparr>burstTime := 3\<rparr>)))
       \<lparr>readyList := [1]\<rparr>"]
    needYield_head_precedes [of "(Scheduler_new Priority 0 IntOff
       (idle_threads(0 := main_thread\<lparr>priority := 2\<rparr>, 1 := main_thread\<lparr>priority := 2\<rparr>)))
       \<lparr>readyList := [1]\<rparr>"]
  by (simp add: Scheduler_new_def SJFCompare_def PriorityCompare_def main_thread_def)

section \<open>Dispatch and deferred destruction\<close>

text \<open>
  Claim C3. \<^verbatim>\<open>Run\<close> with \<^verbatim>\<open>finishing\<close> set, called while \<^verbatim>\<open>toBeDestroyed\<close> is
  occupied, fails its assertion. When the part of \<^verbatim>\<open>Run\<close> before the switch succeeds
  and the switch returns with interrupts disabled, \<^verbatim>\<open>Run\<close> returns, the slot is empty
  at its return, and the thread that was in the slot when the switch returned has been
  destroyed; a finishing caller was put in the slot before the switch.
\<close>

theorem Run_drains_toBeDestroyed:
  "(toBeDestroyed s \<noteq> None \<longrightarrow> Run SWITCH nextThread True s = Inl AssertionFailed)
   \<and> (\<forall>s1. Run_before_SWITCH nextThread finishing s = Inr s1 \<longrightarrow>
         level (SWITCH s1) = IntOff \<longrightarrow>
           (\<exists>s'. Run SWITCH nextThread finishing s = Inr s'
              \<and> toBeDestroyed s' = None
              \<and> (\<forall>d. toBeDestroyed (SWITCH s1) = Some d \<longrightarrow> d \<in> destroyed s'))
         \<and> (finishing \<longrightarrow> toBeDestroyed s1 = Some (currentThread s)))"
  by (auto simp: Run_def Run_before_SWITCH_def Run_after_SWITCH_def CheckToBeDestroyed_def Let_def
      split: if_splits option.splits sum.splits)

theorem Run_drains_toBeDestroyed_witness:
  "Run (\<lambda>s. s\<lparr>toBeDestroyed := Some 5, currentThread := 0\<rparr>) 1 True
       ((Scheduler_new FCFS 0 IntOff idle_threads)\<lparr>toBeDestroyed := Some 3\<rparr>)
     = Inl AssertionFailed
   \<and> (\<exists>s'. Run (\<lambda>s. s\<lparr>toBeDestroyed := Some 5, currentThread := 0\<rparr>) 1 False
              (Scheduler_new FCFS 0 IntOff idle_threads) = Inr s'
         \<and> toBeDestroyed s' = None \<and> 5 \<in> destroyed s')"
  using Run_drains_toBeDestroyed
      [of "(Scheduler_new FCFS 0 IntOff idle_threads)\<lparr>toBeDestroyed := Some 3\<rparr>"
          "\<lambda>s. s\<lparr>toBeDestroyed := Some 5, currentThread := 0\<rparr>" 1 True]
    Run_drains_toBeDestroyed
      [of "Scheduler_new FCFS 0 IntOff idle_threads"
          "\<lambda>s. s\<lparr>toBeDestroyed := Some 5, currentThread := 0\<rparr>" 1 False]
  by (simp add: Scheduler_new_def Run_before_SWITCH_def idle_threads_def main_thread_def Let_def)

section \<open>Going to sleep\<close>

text \<open>
  Claim C5. With interrupts disabled, \<^verbatim>\<open>FallAsleep\<close> returns; it has put the pair of
  the thread and the wake tick \<open>current + val\<close> at the back of the sleep list and set the
  thread's status to blocked, which is not the ready status. It has dispatched nothing:
  the ready list, the running thread, the slot for deferred destruction and the tick
  clock are as before, and so is every other thread.
\<close>

theorem FallAsleep_effect:
  assumes "level s = IntOff"
  shows "\<exists>s'. FallAsleep t val s = Inr s'
     \<and> sleepingList s' = sleepingList s @ [(t, current s + val)]
     \<and> status (threads s' t) = BLOCKED
     \<and> status (threads s' t) \<noteq> READY
     \<and> readyList s' = readyList s
     \<and> currentThread s' = currentThread s
     \<and> toBeDestroyed s' = toBeDestroyed s
     \<and> current s' = current s
     \<and> (\<forall>u. u \<noteq> t \<longrightarrow> threads s' u = threads s u)"
  using assms by (simp add: FallAsleep_def Thread_Sleep_def setStatus_def)

theorem FallAsleep_effect_witness:
  "\<exists>s'. FallAsleep 0 10 (Scheduler_new FCFS 0 IntOff idle_threads) = Inr s'
     \<and> sleepingList s' = [(0, 10)]
     \<and> status (threads s' 0) = BLOCKED
     \<and> readyList s' = []
     \<and> currentThread s' = 0"
  using FallAsleep_effect [of "Scheduler_new FCFS 0 IntOff idle_threads" 0 10]
  by (auto simp add: Scheduler_new_def)

section \<open>Waking sleepers\<close>

text \<open>
  Claim C4. With interrupts disabled, as \<^verbatim>\<open>ReadyToRun\<close> asserts, every call of
  \<^verbatim>\<open>WakeUp\<close> returns. It has advanced the tick clock by one (as a 32-bit value; by one
  as a number unless the clock stood at the largest \<^verbatim>\<open>int\<close>). The sleep list it leaves
  is the old one without the entries whose wake tick is below the new tick, in their old
  order, so no expired entry stays behind. The state it leaves is the one reached by
  calling \<^verbatim>\<open>ReadyToRun\<close> on the threads of the removed entries, and the result is true
  exactly when some entry had expired. The ready list it leaves holds what it held and,
  once for each removed entry, the thread of that entry, and nothing else; under FCFS
  these threads stand at its back in the order of their entries. Each of them is on the
  ready list with status ready; no thread object has changed but in its status, and those
  of the other threads have not changed at all.
\<close>

theorem WakeUp_wakes_all_expired:
  assumes "level s = IntOff"
  shows "\<exists>woken s'. WakeUp s = Inr (woken, s')
     \<and> current s' = current s + 1
     \<and> (sint (current s) < 2 ^ 31 - 1 \<longrightarrow> sint (current s') = sint (current s) + 1)
     \<and> sleepingList s' = filter (\<lambda>it. \<not> sint (snd it) < sint (current s')) (sleepingList s)
     \<and> (\<forall>it \<in> set (sleepingList s'). \<not> sint (snd it) < sint (current s'))
     \<and> ReadyToRun_seq (map fst (filter (\<lambda>it. sint (snd it) < sint (current s')) (sleepingList s)))
           (s\<lparr>current := current s', sleepingList := sleepingList s'\<rparr>) = Inr s'
     \<and> woken = (\<exists>it \<in> set (sleepingList s). sint (snd it) < sint (current s'))
     \<and> mset (readyList s') =
         mset (readyList s)
         + mset (map fst (filter (\<lambda>it. sint (snd it) < sint (current s')) (sleepingList s)))
     \<and> (schedulerType s = FCFS \<longrightarrow>
          readyList s' =
            readyList s @ map fst (filter (\<lambda>it. sint (snd it) < sint (current s')) (sleepingList s)))
     \<and> (\<forall>it \<in> set (sleepingList s). sint (snd it) < sint (current s') \<longrightarrow>
          fst it \<in> set (readyList s') \<and> status (threads s' (fst it)) = READY)
     \<and> (\<forall>t. (threads s' t)\<lparr>status := READY\<rparr> = (threads s t)\<lparr>status := READY\<rparr>)
     \<and> (\<forall>t. (\<forall>it \<in> set (sleepingList s). sint (snd it) < sint (current s') \<longrightarrow> fst it \<noteq> t) \<longrightarrow>
          threads s' t = threads s t)"
proof -
  let ?now = "current s + 1"
  let ?ex = "filter (expired ?now) (sleepingList s)"
  let ?keep = "filter (\<lambda>it. \<not> expired ?now it) (sleepingList s)"
  define s' where
    "s' = (fold markReady (map fst ?ex) (s\<lparr>current := ?now\<rparr>))\<lparr>sleepingList := ?keep\<rparr>"
  have w: "WakeUp s = Inr (?ex \<noteq> [], s')"
    unfolding s'_def using assms by (rule WakeUp_IntOff)
  have c: "current s' = ?now" by (simp add: s'_def)
  have e: "expired ?now = (\<lambda>it. sint (snd it) < sint (current s'))"
    by (rule ext) (simp add: expired_def c)
  have o: "sint (current s) < 2 ^ 31 - 1 \<longrightarrow> sint (current s') = sint (current s) + 1"
    by (simp add: c sint_succ_no_overflow)
  have sl: "sleepingList s' = ?keep" by (simp add: s'_def)
  have nx: "\<forall>it \<in> set (sleepingList s'). \<not> expired ?now it" by (simp add: sl)
  have r: "ReadyToRun_seq (map fst ?ex) (s\<lparr>current := current s', sleepingList := sleepingList s'\<rparr>) = Inr s'"
    unfolding c sl unfolding s'_def
    using assms by (simp add: ReadyToRun_seq_IntOff fold_markReady_sleepingList_update)
  have wk: "(?ex \<noteq> []) = (\<exists>it \<in> set (sleepingList s). expired ?now it)"
    by (simp add: filter_empty_conv)
  have ms: "mset (readyList s') = mset (readyList s) + mset (map fst ?ex)"
    by (simp add: s'_def mset_readyList_fold_markReady)
  have ff: "schedulerType s = FCFS \<longrightarrow> readyList s' = readyList s @ map fst ?ex"
    by (simp add: s'_def readyList_fold_markReady_FCFS)
  have rd: "\<forall>it \<in> set (sleepingList s). expired ?now it \<longrightarrow>
      fst it \<in> set (readyList s') \<and> status (threads s' (fst it)) = READY"
  proof (intro ballI impI)
    fix it assume "it \<in> set (sleepingList s)" "expired ?now it"
    then have m: "fst it \<in> set (map fst ?ex)" by simp
    then have "fst it \<in> set (readyList s')"
      by (simp add: s'_def set_readyList_fold_markReady)
    moreover have "status (threads s' (fst it)) = READY"
      using status_fold_markReady [OF m] by (simp add: s'_def)
    ultimately show "fst it \<in> set (readyList s') \<and> status (threads s' (fst it)) = READY" ..
  qed
  have so: "\<forall>t. (threads s' t)\<lparr>status := READY\<rparr> = (threads s t)\<lparr>status := READY\<rparr>"
    by (simp add: s'_def threads_fold_markReady_status_only)
  have ot: "\<forall>t. (\<forall>it \<in> set (sleepingList s). expired ?now it \<longrightarrow> fst it \<noteq> t) \<longrightarrow>
      threads s' t = threads s t"
  proof (intro allI impI)
    fix t assume "\<forall>it \<in> set (sleepingList s). expired ?now it \<longrightarrow> fst it \<noteq> t"
    then have "t \<notin> set (map fst ?ex)" by auto
    from threads_fold_markReady_other [OF this] show "threads s' t = threads s t"
      by (simp add: s'_def)
  qed
  from w c o sl nx r wk ms ff rd so ot show ?thesis
    unfolding e by (intro exI conjI)
qed

theorem WakeUp_wakes_all_expired_witness:
  "\<exists>woken s'. WakeUp ((Scheduler_new FCFS 0 IntOff idle_threads)
                          \<lparr>sleepingList := [(1, 0), (2, 5), (3, 0)]\<rparr>) = Inr (woken, s')
     \<and> current s' = 1 \<and> sleepingList s' = [(2, 5)] \<and> woken
     \<and> readyList s' = [1, 3]
     \<and> status (threads s' 1) = READY \<and> status (threads s' 3) = READY
     \<and> threads s' 2 = idle_threads 2"
  using WakeUp_wakes_all_expired
    [of "(Scheduler_new FCFS 0 IntOff idle_threads)\<lparr>sleepingList := [(1, 0), (2, 5), (3, 0)]\<rparr>"]
  by (auto simp add: Scheduler_new_def)



section \<open>Sleeping for a duration\<close>

text \<open>
  Claim C1, as the code has it. Let interrupts be disabled, the duration \<open>val\<close> be
  non-negative, the clock not overflow within \<open>val + 1\<close> ticks, and \<open>t\<close> be neither
  ready nor asleep. After \<^verbatim>\<open>FallAsleep t val\<close>, each of the first \<open>val\<close> calls of
  \<^verbatim>\<open>WakeUp\<close> leaves \<open>t\<close> in the sleep list and off the ready list; the call after
  those, the \<open>(val + 1)\<close>-th, returns true, puts \<open>t\<close> on the ready list with status
  ready and removes it from the sleep list.
\<close>

theorem FallAsleep_wakes_one_call_after_duration:
  assumes "level s = IntOff"
    and "0 \<le> sint val" and "sint (current s) + sint val + 1 < 2 ^ 31"
    and "t \<notin> set (readyList s)" and "t \<notin> fst ` set (sleepingList s)"
  shows "\<exists>s1. FallAsleep t val s = Inr s1
      \<and> (\<forall>k \<le> nat (sint val). \<exists>sk. WakeUp_times k s1 = Inr sk
             \<and> t \<notin> set (readyList sk) \<and> (t, current s + val) \<in> set (sleepingList sk))
      \<and> (\<exists>sd s'. WakeUp_times (nat (sint val)) s1 = Inr sd \<and> WakeUp sd = Inr (True, s')
             \<and> t \<in> set (readyList s') \<and> t \<notin> fst ` set (sleepingList s')
             \<and> status (threads s' t) = READY)"
proof -
  let ?w = "current s + val"
  let ?s1 = "s\<lparr>sleepingList := sleepingList s @ [(t, ?w)],
            threads := setStatus t BLOCKED (threads s)\<rparr>"
  have f: "FallAsleep t val s = Inr ?s1" using assms(1) by (rule FallAsleep_IntOff)
  have sw: "sint ?w = sint (current s) + sint val"
    using assms(2,3) by (simp add: sint_add_no_overflow)
  have b: "sint ?w < 2 ^ 31 - 1" using sw assms(3) by simp
  have nt: "(t, w') \<notin> set (sleepingList s)" for w'
    using assms(5) by force
  have a0: "asleep t ?w (sint (current s)) ?s1"
    using assms(1,4) nt by (simp add: asleep_def)
  have early: "\<exists>sk. WakeUp_times k ?s1 = Inr sk
             \<and> t \<notin> set (readyList sk) \<and> (t, ?w) \<in> set (sleepingList sk)"
    if "k \<le> nat (sint val)" for k
  proof -
    from that assms(2) have "sint (current s) + int k \<le> sint ?w" by (simp add: sw)
    from asleep_ticks [OF a0 this b] show ?thesis unfolding asleep_def by blast
  qed
  have "sint (current s) + int (nat (sint val)) \<le> sint ?w" using assms(2) by (simp add: sw)
  from asleep_ticks [OF a0 this b] obtain sd where
    sd: "WakeUp_times (nat (sint val)) ?s1 = Inr sd"
      "asleep t ?w (sint (current s) + int (nat (sint val))) sd" by blast
  from sd(2) assms(2) have "asleep t ?w (sint ?w) sd" by (simp add: sw)
  from asleep_wake [OF this b] obtain s' where
    s': "WakeUp sd = Inr (True, s')" "t \<in> set (readyList s')"
      "t \<notin> fst ` set (sleepingList s')" "status (threads s' t) = READY" by blast
  have late: "\<exists>sd s'. WakeUp_times (nat (sint val)) ?s1 = Inr sd \<and> WakeUp sd = Inr (True, s')
             \<and> t \<in> set (readyList s') \<and> t \<notin> fst ` set (sleepingList s')
             \<and> status (threads s' t) = READY"
    using sd(1) s' by blast
  from early have early': "\<forall>k \<le> nat (sint val). \<exists>sk. WakeUp_times k ?s1 = Inr sk
             \<and> t \<notin> set (readyList sk) \<and> (t, ?w) \<in> set (sleepingList sk)"
    by blast
  show ?thesis
    by (rule exI [of _ ?s1]) (intro conjI f early' late)
qed

theorem FallAsleep_wakes_one_call_after_duration_witness:
  "\<exists>s1. FallAsleep 0 2 (Scheduler_new FCFS 0 IntOff idle_threads) = Inr s1
      \<and> (\<exists>sd s'. WakeUp_times 2 s1 = Inr sd \<and> WakeUp sd = Inr (True, s')
             \<and> 0 \<in> set (readyList s') \<and> status (threads s' 0) = READY)"
  using FallAsleep_wakes_one_call_after_duration
    [of "Scheduler_new FCFS 0 IntOff idle_threads" 2 0]
  by (auto simp add: Scheduler_new_def)

text \<open>
  The claim as the spec words it fails: a thread that falls asleep for 2 ticks at tick 0
  is still in the sleep list, and the ready list is still empty, after the second call of
  \<^verbatim>\<open>WakeUp\<close>.
\<close>

theorem FallAsleep_not_woken_on_call_duration:
  "sleep_then_tick 0 2 2 (Scheduler_new FCFS 0 IntOff idle_threads) =
     Inr \<lparr> schedulerType = FCFS, readyList = [], toBeDestroyed = None,
           sleepingList = [(0, 2)], current = 2, currentThread = 0, level = IntOff,
           threads = setStatus 0 BLOCKED idle_threads, destroyed = {} \<rparr>"
  by (simp add: sleep_then_tick_def FallAsleep_IntOff Scheduler_new_def WakeUp_IntOff
      expired_def numeral_2_eq_2)

section \<open>Ready-queue policies\<close>

text \<open>
  Claim C6. Under FCFS with interrupts disabled, every sequence of \<^verbatim>\<open>ReadyToRun\<close> and
  \<^verbatim>\<open>FindNextToRun\<close> calls runs to its end, and the selections return what a plain FIFO
  queue returns: the threads returned, followed by those still on the ready list, are the
  threads initially on the list followed by the threads marked ready, in that order.
\<close>

theorem FCFS_is_fifo_queue:
  assumes "schedulerType s = FCFS" and "level s = IntOff"
  shows "\<exists>outs s'. run_calls cs s = Inr (outs, s')
     \<and> outs = fifo_outputs cs (readyList s)
     \<and> returned outs @ readyList s' = readyList s @ marked cs"
  using assms
proof (induction cs arbitrary: s)
  case Nil
  then show ?case by simp
next
  case (Cons c cs)
  show ?case
  proof (cases c)
    case (MarkReady t)
    let ?s = "markReady t s"
    have r: "ReadyToRun t s = Inr ?s" using Cons.prems(2) by (rule ReadyToRun_IntOff)
    have q: "readyList ?s = readyList s @ [t]"
      using Cons.prems(1) by (simp add: markReady_def readyList_Append_def List_Append_def)
    have "schedulerType ?s = FCFS" "level ?s = IntOff" using Cons.prems by simp_all
    from Cons.IH [OF this] obtain outs s' where
      "run_calls cs ?s = Inr (outs, s')" "outs = fifo_outputs cs (readyList ?s)"
      "returned outs @ readyList s' = readyList ?s @ marked cs" by blast
    then show ?thesis using r q MarkReady by simp
  next
    case SelectNext
    show ?thesis
    proof (cases "readyList s")
      case Nil
      have f: "FindNextToRun s = Inr (None, s)"
        using Cons.prems(2) Nil by (rule FindNextToRun_Nil)
      from Cons.IH [OF Cons.prems] obtain outs s' where
        "run_calls cs s = Inr (outs, s')" "outs = fifo_outputs cs (readyList s)"
        "returned outs @ readyList s' = readyList s @ marked cs" by blast
      then show ?thesis using f Nil SelectNext by simp
    next
      case (Cons x xs)
      let ?s = "s\<lparr>readyList := xs\<rparr>"
      have f: "FindNextToRun s = Inr (Some x, ?s)"
        using Cons.prems(2) Cons by (rule FindNextToRun_Cons)
      have "schedulerType ?s = FCFS" "level ?s = IntOff" using Cons.prems by simp_all
      from Cons.IH [OF this] obtain outs s' where
        "run_calls cs ?s = Inr (outs, s')" "outs = fifo_outputs cs (readyList ?s)"
        "returned outs @ readyList s' = readyList ?s @ marked cs" by blast
      then show ?thesis using f Cons SelectNext by simp
    qed
  qed
qed

theorem FCFS_is_fifo_queue_witness:
  "\<exists>outs s'. run_calls [MarkReady 3, MarkReady 1, SelectNext, MarkReady 2, SelectNext,
                          SelectNext, SelectNext]
                 (Scheduler_new FCFS 0 IntOff idle_threads) = Inr (outs, s')
     \<and> outs = [Some 3, Some 1, Some 2, None] \<and> readyList s' = []"
  using FCFS_is_fifo_queue
    [of "Scheduler_new FCFS 0 IntOff idle_threads"
        "[MarkReady 3, MarkReady 1, SelectNext, MarkReady 2, SelectNext, SelectNext, SelectNext]"]
  by (auto simp add: Scheduler_new_def)

text \<open>
  Claim C7. Under Priority with interrupts disabled, after threads are marked ready on a
  ready list that is in ascending order of priority values, the list is in ascending
  order again, and threads of equal priority stand in the order in which they came (the
  list is the stable sort of the old list followed by the threads marked ready);
  \<^verbatim>\<open>FindNextToRun\<close> returns the threads in the order of the list. In the self test with
  priorities 5, 1, 3, 2 for the threads A, B, C, D (test cases 0 and 1), the forks leave
  the ready list B, D, C, A. When the self test then runs, with no stack overflowing,
  the processor idles after at most 27 steps with every thread completed, and the four
  threads have completed in the order B, D, C, A, whatever the priority of the calling
  thread is and whether or not threads yield when advised to.
\<close>

theorem Priority_dispatches_smaller_value_first:
  "(schedulerType s = Priority \<longrightarrow> level s = IntOff \<longrightarrow>
    sorted (map (\<lambda>t. priority (threads s t)) (readyList s)) \<longrightarrow>
     (\<exists>s'. ReadyToRun_seq ts s = Inr s'
        \<and> sorted (map (\<lambda>t. priority (threads s t)) (readyList s'))
        \<and> (\<forall>k. filter (\<lambda>t. priority (threads s t) = k) (readyList s') =
                filter (\<lambda>t. priority (threads s t) = k) (readyList s @ ts))
        \<and> readyList s' = sort_key (\<lambda>t. priority (threads s t)) (readyList s @ ts)
        \<and> FindNextToRun_times (length (readyList s @ ts)) s' =
            Inr (map Some (readyList s'), s'\<lparr>readyList := []\<rparr>)))
   \<and> (distinct [a, b, c, d] \<longrightarrow> testcase = 0 \<or> testcase = 1 \<longrightarrow>
       (\<exists>s'. SelfTest_forks testcase [a, b, c, d] (Scheduler_new Priority m lv h) = Inr s'
           \<and> readyList s' = [b, d, c, a]
           \<and> map (\<lambda>t. name (threads s' t)) (readyList s') = [''B'', ''D'', ''C'', ''A'']
           \<and> map (\<lambda>t. priority (threads s' t)) (readyList s') = [1, 2, 3, 5]
           \<and> FindNextToRun_times 4 (s'\<lparr>level := IntOff\<rparr>) =
               Inr ([Some b, Some d, Some c, Some a], s'\<lparr>level := IntOff, readyList := []\<rparr>)))
   \<and> (distinct [a, b, c, d] \<longrightarrow> m \<notin> set [a, b, c, d] \<longrightarrow> (\<forall>t. \<not> stackOverflowed (h t)) \<longrightarrow>
       testcase = 0 \<or> testcase = 1 \<longrightarrow> 27 \<le> n \<longrightarrow>
       (\<exists>M. SelfTest_run preempt testcase [a, b, c, d] n (Scheduler_new Priority m lv h) = Inr M
           \<and> idle M
           \<and> filter (\<lambda>t. t \<in> set [a, b, c, d]) (completed M) = [b, d, c, a]
           \<and> map (\<lambda>t. name (threads (sched M) t)) [b, d, c, a] = [''B'', ''D'', ''C'', ''A'']
           \<and> mset (completed M) = mset [m, a, b, c, d]))"
proof (intro conjI impI)
  assume a: "schedulerType s = Priority" "level s = IntOff"
    "sorted (map (\<lambda>t. priority (threads s t)) (readyList s))"
  let ?s' = "fold markReady ts s"
  have r: "ReadyToRun_seq ts s = Inr ?s'" using a(2) by (rule ReadyToRun_seq_IntOff)
  from Priority_readyList [OF a(1,3), of ts] have
    so: "sorted (map (\<lambda>t. priority (threads s t)) (readyList ?s'))"
    and fi: "\<forall>k. filter (\<lambda>t. priority (threads s t) = k) (readyList ?s') =
             filter (\<lambda>t. priority (threads s t) = k) (readyList s @ ts)"
    and ms: "mset (readyList ?s') = mset (readyList s @ ts)" by blast+
  have sk: "readyList ?s' = sort_key (\<lambda>t. priority (threads s t)) (readyList s @ ts)"
    using a(1,3) by (rule Priority_readyList_sort_key)
  have "length (readyList ?s') = length (readyList s @ ts)" using ms by (metis size_mset)
  moreover have "level ?s' = IntOff" using a(2) by simp
  ultimately have f: "FindNextToRun_times (length (readyList s @ ts)) ?s' =
      Inr (map Some (readyList ?s'), ?s'\<lparr>readyList := []\<rparr>)"
    using FindNextToRun_times_all [of ?s' "readyList ?s'"] by simp
  from r so fi sk f show "\<exists>s'. ReadyToRun_seq ts s = Inr s'
        \<and> sorted (map (\<lambda>t. priority (threads s t)) (readyList s'))
        \<and> (\<forall>k. filter (\<lambda>t. priority (threads s t) = k) (readyList s') =
                filter (\<lambda>t. priority (threads s t) = k) (readyList s @ ts))
        \<and> readyList s' = sort_key (\<lambda>t. priority (threads s t)) (readyList s @ ts)
        \<and> FindNextToRun_times (length (readyList s @ ts)) s' =
            Inr (map Some (readyList s'), s'\<lparr>readyList := []\<rparr>)"
    by blast
next
  assume "distinct [a, b, c, d]" "testcase = 0 \<or> testcase = 1"
  then show "\<exists>s'. SelfTest_forks testcase [a, b, c, d] (Scheduler_new Priority m lv h) = Inr s'
           \<and> readyList s' = [b, d, c, a]
           \<and> map (\<lambda>t. name (threads s' t)) (readyList s') = [''B'', ''D'', ''C'', ''A'']
           \<and> map (\<lambda>t. priority (threads s' t)) (readyList s') = [1, 2, 3, 5]
           \<and> FindNextToRun_times 4 (s'\<lparr>level := IntOff\<rparr>) =
               Inr ([Some b, Some d, Some c, Some a], s'\<lparr>level := IntOff, readyList := []\<rparr>)"
    by (rule SelfTest_priority_scenario)
next
  assume "distinct [a, b, c, d]" "m \<notin> set [a, b, c, d]" "\<forall>t. \<not> stackOverflowed (h t)"
    "testcase = 0 \<or> testcase = 1" "27 \<le> n"
  then show "\<exists>M. SelfTest_run preempt testcase [a, b, c, d] n (Scheduler_new Priority m lv h) = Inr M
           \<and> idle M
           \<and> filter (\<lambda>t. t \<in> set [a, b, c, d]) (completed M) = [b, d, c, a]
           \<and> map (\<lambda>t. name (threads (sched M) t)) [b, d, c, a] = [''B'', ''D'', ''C'', ''A'']
           \<and> mset (completed M) = mset [m, a, b, c, d]"
    by (rule SelfTest_completion)
qed

theorem Priority_dispatches_smaller_value_first_witness:
  "schedulerType priority_example = Priority \<and> level priority_example = IntOff
   \<and> sorted (map (\<lambda>t. priority (threads priority_example t)) (readyList priority_example))
   \<and> distinct [1, 2, 3, 4 :: nat]
   \<and> (\<exists>s'. ReadyToRun_seq [0, 1, 2, 3, 4] priority_example = Inr s'
      \<and> readyList s' = [1, 3, 2, 4, 0]
      \<and> FindNextToRun_times 5 s' = Inr ([Some 1, Some 3, Some 2, Some 4, Some 0], s'\<lparr>readyList := []\<rparr>))
   \<and> (\<exists>s'. SelfTest_forks 0 [1, 2, 3, 4] (Scheduler_new Priority 0 IntOn idle_threads) = Inr s'
      \<and> map (\<lambda>t. name (threads s' t)) (readyList s') = [''B'', ''D'', ''C'', ''A''])
   \<and> (\<exists>M. SelfTest_run True 0 [1, 2, 3, 4] 27 (Scheduler_new Priority 0 IntOn idle_threads) = Inr M
      \<and> idle M
      \<and> filter (\<lambda>t. t \<in> set [1, 2, 3, 4]) (completed M) = [2, 4, 3, 1])"
proof -
  have h: "schedulerType priority_example = Priority" "level priority_example = IntOff"
    "sorted (map (\<lambda>t. priority (threads priority_example t)) (readyList priority_example))"
    by (simp_all add: priority_example_def Scheduler_new_def)
  have e: "readyList priority_example = []"
    by (simp add: priority_example_def Scheduler_new_def)
  have d: "distinct [1, 2, 3, 4 :: nat]" by simp
  note t = Priority_dispatches_smaller_value_first
    [where s = priority_example and ts = "[0, 1, 2, 3, 4]" and a = 1 and b = 2 and c = 3
       and d = 4 and testcase = 0 and m = 0 and lv = IntOn and h = idle_threads
       and preempt = True and n = 27]
  from t [THEN conjunct1, rule_format, OF h] obtain s' where s':
    "ReadyToRun_seq [0, 1, 2, 3, 4] priority_example = Inr s'"
    "readyList s' = sort_key (\<lambda>t. priority (threads priority_example t)) [0, 1, 2, 3, 4]"
    "FindNextToRun_times (length [0, 1, 2, 3, 4 :: nat]) s' =
       Inr (map Some (readyList s'), s'\<lparr>readyList := []\<rparr>)"
    unfolding e append_Nil by blast
  have k: "sort_key (\<lambda>t. priority (threads priority_example t)) [0, 1, 2, 3, 4] = [1, 3, 2, 4, 0]"
    by (simp add: priority_example_def Scheduler_new_def main_thread_def)
  have len: "length [0, 1, 2, 3, 4 :: nat] = 5" by simp
  from s'(2) k have rl: "readyList s' = [1, 3, 2, 4, 0]" by (rule trans)
  from s'(3) have "FindNextToRun_times 5 s' =
      Inr ([Some 1, Some 3, Some 2, Some 4, Some 0], s'\<lparr>readyList := []\<rparr>)"
    unfolding len rl by (simp only: list.map)
  with s'(1) rl have 1: "\<exists>s'. ReadyToRun_seq [0, 1, 2, 3, 4] priority_example = Inr s'
      \<and> readyList s' = [1, 3, 2, 4, 0]
      \<and> FindNextToRun_times 5 s' = Inr ([Some 1, Some 3, Some 2, Some 4, Some 0], s'\<lparr>readyList := []\<rparr>)"
    by blast
  have tc: "(0 :: int) = 0 \<or> (0 :: int) = 1" by simp
  from t [THEN conjunct2, THEN conjunct1, rule_format, OF d tc] obtain s'' where
    "SelfTest_forks 0 [1, 2, 3, 4] (Scheduler_new Priority 0 IntOn idle_threads) = Inr s''"
    "map (\<lambda>t. name (threads s'' t)) (readyList s'') = [''B'', ''D'', ''C'', ''A'']"
    by (elim exE conjE)
  then have 2: "\<exists>s'. SelfTest_forks 0 [1, 2, 3, 4] (Scheduler_new Priority 0 IntOn idle_threads) = Inr s'
      \<and> map (\<lambda>t. name (threads s' t)) (readyList s') = [''B'', ''D'', ''C'', ''A'']"
    by (intro exI conjI)
  have mm: "(0 :: nat) \<notin> set [1, 2, 3, 4]" by simp
  have st: "\<not> stackOverflowed (idle_threads t)" for t
    by (simp add: idle_threads_def main_thread_def)
  have nn: "(27 :: nat) \<le> 27" by simp
  from t [THEN conjunct2, THEN conjunct2, rule_format, OF d mm st tc nn] obtain M where
    "SelfTest_run True 0 [1, 2, 3, 4] 27 (Scheduler_new Priority 0 IntOn idle_threads) = Inr M"
    "idle M" "filter (\<lambda>t. t \<in> set [1, 2, 3, 4]) (completed M) = [2, 4, 3, 1]"
    by (elim exE conjE)
  then have 3: "\<exists>M. SelfTest_run True 0 [1, 2, 3, 4] 27 (Scheduler_new Priority 0 IntOn idle_threads) = Inr M
      \<and> idle M
      \<and> filter (\<lambda>t. t \<in> set [1, 2, 3, 4]) (completed M) = [2, 4, 3, 1]"
    by (intro exI conjI)
  from h d 1 2 3 show ?thesis by (intro conjI)
qed

section \<open>Releasing a page table\<close>

text \<open>
  Claim C9. After \<^verbatim>\<open>ReleaseAll pt n\<close>, looking up page \<open>v\<close> of \<open>pt\<close> finds no entry in
  the frame directory and none in the swap directory, for every \<open>v < n\<close>. When the page
  table has \<open>n\<close> pages, so that every valid entry that names it has its page number
  below \<open>n\<close>, no valid entry of either directory names \<open>pt\<close> afterwards. The directories
  keep their sizes, and the entries of other page tables are as before.
\<close>

theorem ReleaseAll_leaves_no_entry:
  "(\<forall>v. int v < n \<longrightarrow>
       lookup_page pt v (frameTable (ReleaseAll pt n m)) = None
     \<and> lookup_page pt v (swapTable (ReleaseAll pt n m)) = None)
   \<and> ((\<forall>e \<in> set (frameTable m) \<union> set (swapTable m).
          valid e \<and> pageTable e = pt \<longrightarrow> int (vpn e) < n) \<longrightarrow>
       (\<forall>e \<in> set (frameTable (ReleaseAll pt n m)) \<union> set (swapTable (ReleaseAll pt n m)).
          \<not> (valid e \<and> pageTable e = pt)))
   \<and> length (frameTable (ReleaseAll pt n m)) = length (frameTable m)
   \<and> length (swapTable (ReleaseAll pt n m)) = length (swapTable m)
   \<and> (\<forall>i < length (frameTable m). pageTable (frameTable m ! i) \<noteq> pt \<longrightarrow>
         frameTable (ReleaseAll pt n m) ! i = frameTable m ! i)
   \<and> (\<forall>i < length (swapTable m). pageTable (swapTable m ! i) \<noteq> pt \<longrightarrow>
         swapTable (ReleaseAll pt n m) ! i = swapTable m ! i)"
proof -
  have a: "\<not> names_page pt v (released pt 0 (nat n) e)" if "int v < n" for v e
    using that by (auto simp: released_def names_page_def)
  have b: "\<not> (valid (released pt 0 (nat n) e) \<and> pageTable (released pt 0 (nat n) e) = pt)"
    if "valid e \<and> pageTable e = pt \<longrightarrow> int (vpn e) < n" for e
    using that by (auto simp: released_def)
  have c: "released pt 0 (nat n) e = e" if "pageTable e \<noteq> pt" for e
    using that by (simp add: released_def)
  show ?thesis
    unfolding ReleaseAll_def ReleaseAll_loop_tables lookup_page_None
    using a b c by (simp add: ball_Un)
qed

theorem ReleaseAll_leaves_no_entry_witness:
  "lookup_page 1 0 (frameTable (ReleaseAll 1 2 memory_example)) = None
   \<and> lookup_page 1 1 (swapTable (ReleaseAll 1 2 memory_example)) = None
   \<and> filter (\<lambda>e. valid e \<and> pageTable e = 1)
        (frameTable (ReleaseAll 1 2 memory_example) @ swapTable (ReleaseAll 1 2 memory_example)) = []
   \<and> frameTable (ReleaseAll 1 2 memory_example) ! 1 = frameTable memory_example ! 1"
proof -
  note t = ReleaseAll_leaves_no_entry [of 2 1 memory_example]
  have v0: "int 0 < 2" and v1: "int 1 < 2" by simp_all
  have a: "lookup_page 1 0 (frameTable (ReleaseAll 1 2 memory_example)) = None"
    using t [THEN conjunct1, rule_format, OF v0] by simp
  have b: "lookup_page 1 1 (swapTable (ReleaseAll 1 2 memory_example)) = None"
    using t [THEN conjunct1, rule_format, OF v1] by simp
  have "\<forall>e \<in> set (frameTable memory_example) \<union> set (swapTable memory_example).
          valid e \<and> pageTable e = 1 \<longrightarrow> int (vpn e) < 2"
    by (simp add: memory_example_def)
  with t have "\<forall>e \<in> set (frameTable (ReleaseAll 1 2 memory_example))
            \<union> set (swapTable (ReleaseAll 1 2 memory_example)).
          \<not> (valid e \<and> pageTable e = 1)"
    by blast
  then have c: "filter (\<lambda>e. valid e \<and> pageTable e = 1)
        (frameTable (ReleaseAll 1 2 memory_example) @ swapTable (ReleaseAll 1 2 memory_example)) = []"
    by (simp add: filter_empty_conv ball_Un)
  have "1 < length (frameTable memory_example)"
    "pageTable (frameTable memory_example ! 1) \<noteq> 1"
    by (simp_all add: memory_example_def)
  with t have d: "frameTable (ReleaseAll 1 2 memory_example) ! 1 = frameTable memory_example ! 1"
    by blast
  from a b c d show ?thesis by (intro conjI)
qed

end
